theory Spec2Isabelle
  imports Main
begin

section \<open>Single-segment wildcard matching\<close>

text \<open>
  Modelled from the spec: DuckDB's \<open>Glob(const char *, idx_t, const char *, idx_t)\<close>, which
  \<open>Match\<close> calls on one key segment and one pattern segment, is part of the DuckDB core and
  is not among the sources of this repository. The specification describes it as expanding
  \<open>*\<close>, \<open>?\<close> and \<open>[...]\<close> as single-segment wildcards with the standard filename-glob
  meaning: \<open>*\<close> stands for any run of characters, \<open>?\<close> for any one character, a bracket
  expression for one character out of the listed characters and ranges (none of them after
  a leading \<open>!\<close>), and every other character for itself. \<open>Glob_seg\<close> follows these words.
  It is used for the concrete examples only; every general statement about \<open>Match\<close> below
  holds for an arbitrary segment matcher.
\<close>

fun bracket_class :: "bool \<Rightarrow> char \<Rightarrow> string \<Rightarrow> (bool \<times> string) option" where
  "bracket_class first s [] = None"
| "bracket_class first s (p # ps) =
     (if p = CHR '']'' \<and> \<not> first then Some (False, ps)
      else (case ps of
              [] \<Rightarrow> None
            | q # qs \<Rightarrow>
                if q = CHR ''-'' then
                  (case qs of
                     [] \<Rightarrow> None
                   | hi # rest \<Rightarrow>
                       map_option
                         (\<lambda>(b, r). (((of_char p :: nat) \<le> of_char s \<and> (of_char s :: nat) \<le> of_char hi) \<or> b, r))
                         (bracket_class False s rest))
                else map_option (\<lambda>(b, r). (p = s \<or> b, r)) (bracket_class False s (q # qs))))"

lemma bracket_class_shorter:
  "bracket_class first s ps = Some (b, r) \<Longrightarrow> length r < length ps"
proof (induction first s ps arbitrary: b r rule: bracket_class.induct)
  case (1 first s)
  then show ?case by simp
next
  case (2 first s p ps)
  show ?case
  proof (cases "p = CHR '']'' \<and> \<not> first")
    case True
    with 2(3) show ?thesis by auto
  next
    case False
    note np = this
    show ?thesis
    proof (cases ps)
      case Nil
      with 2(3) np show ?thesis by auto
    next
      case (Cons q qs)
      note ps = this
      show ?thesis
      proof (cases "q = CHR ''-''")
        case True
        note dash = this
        show ?thesis
        proof (cases qs)
          case Nil
          with 2(3) np ps dash show ?thesis by auto
        next
          case (Cons hi rest)
          with 2(3) np ps dash obtain b' where "bracket_class False s rest = Some (b', r)"
            by auto
          from 2(1)[OF np ps dash Cons this] show ?thesis using ps Cons by simp
        qed
      next
        case False
        with 2(3) np ps obtain b' where "bracket_class False s (q # qs) = Some (b', r)"
          by auto
        from 2(2)[OF np ps False this] show ?thesis using ps by simp
      qed
    qed
  qed
qed

function Glob_seg :: "string \<Rightarrow> string \<Rightarrow> bool" where
  "Glob_seg [] pattern = (\<forall>c \<in> set pattern. c = CHR ''*'')"
| "Glob_seg (s # ss) [] = False"
| "Glob_seg (s # ss) (p # ps) =
     (if p = CHR ''*'' then Glob_seg (s # ss) ps \<or> Glob_seg ss (p # ps)
      else if p = CHR ''?'' then Glob_seg ss ps
      else if p = CHR ''['' then
        (case (case ps of
                 c # cs \<Rightarrow> if c = CHR ''!'' then (True, cs) else (False, ps)
               | [] \<Rightarrow> (False, ps)) of
           (invert, body) \<Rightarrow>
             (case bracket_class True s body of
                None \<Rightarrow> False
              | Some (found, rest) \<Rightarrow> found \<noteq> invert \<and> Glob_seg ss rest))
      else s = p \<and> Glob_seg ss ps)"
  by pat_completeness auto
termination
proof (relation "measure (\<lambda>(s, p). length s + length p)", goal_cases)
  case (5 s ss p ps x y x2 xa ya)
  then have "length ya < length y"
    using bracket_class_shorter[of True s y xa ya] by simp
  moreover have "length y \<le> length ps"
    using 5 by (auto split: list.splits if_splits)
  ultimately show ?case by simp
qed simp_all

section \<open>Segment-wise glob matching (webdavfs.cpp, \<open>Match\<close>)\<close>

text \<open>
  \<open>Match\<close> walks a key (the path, split into segments) and a pattern (split into
  segments) in lock-step. A single segment is compared with DuckDB's \<open>Glob\<close> function,
  which lives in the DuckDB core and not in this repository: it is the parameter \<open>G\<close>
  (\<open>G k p\<close> is \<open>Glob(k.data(), k.length(), p.data(), p.length())\<close>).

  The outer \<open>while (key != key_end && pattern != pattern_end)\<close> loop is the recursion of
  \<open>Match\<close>; the inner \<open>while (key != key_end)\<close> loop of the \<open>**\<close> branch, which calls
  \<open>Match\<close> on every remaining non-empty key suffix, is \<open>Match_from\<close>.
\<close>

fun Match :: "(string \<Rightarrow> string \<Rightarrow> bool) \<Rightarrow> string list \<Rightarrow> string list \<Rightarrow> bool"
  and Match_from :: "(string \<Rightarrow> string \<Rightarrow> bool) \<Rightarrow> string list \<Rightarrow> string list \<Rightarrow> bool"
where
  "Match G [] pattern = (pattern = [])"
| "Match G (k # key) [] = False"
| "Match G (k # key) (p # pattern) =
     (if p = ''**'' then
        (if pattern = [] then True else Match_from G (k # key) pattern)
      else if \<not> G k p then False
      else Match G key pattern)"
| "Match_from G [] pattern = False"
| "Match_from G (k # key) pattern =
     (if Match G (k # key) pattern then True else Match_from G key pattern)"

section \<open>Exceptions and open flags\<close>

text \<open>
  The C++ exceptions the code throws, with their message. \<open>HTTPException\<close> is thrown by
  the HTTP layer of the surrounding framework, \<open>std::invalid_argument\<close> by \<open>std::stoi\<close>.
\<close>

datatype exception =
    IOException string
  | NotImplementedException string
  | InternalException string
  | HTTPException string
  | StdInvalidArgument string

text \<open>
  \<open>FileOpenFlags\<close> is a DuckDB type; the constructor of the handle reads it through the
  three accessors below only.
\<close>

record FileOpenFlags =
  OpenForReading :: bool
  OpenForWriting :: bool
  OpenForAppending :: bool

record WebDAVAuthParams =
  username :: string
  password :: string

text \<open>
  The fields of \<open>WebDAVFileHandle\<close> (webdavfs.hpp) and the fields of its base class that
  the code uses: \<open>path\<close>, \<open>flags\<close>, \<open>file_offset\<close> (initially 0) and the setting
  \<open>http_params.webdav_streaming_threshold_mb\<close>. Byte strings are \<open>string\<close>s.
\<close>

record WebDAVFileHandle =
  path :: string
  flags :: FileOpenFlags
  auth_params :: WebDAVAuthParams
  webdav_streaming_threshold_mb :: nat
  file_offset :: nat
  write_buffer :: string
  buffer_dirty :: bool
  temp_file_path :: string
  using_temp_file :: bool

text \<open>
  The constructor (webdavfs.hpp, lines 28-38). The base-class initialiser and the member
  initialisers only store their arguments; the body then checks the flags. Nothing here
  sends a request: the function has no access to the remote side at all.
\<close>

definition WebDAVFileHandle_ctor ::
  "string \<Rightarrow> FileOpenFlags \<Rightarrow> nat \<Rightarrow> WebDAVAuthParams \<Rightarrow> exception + WebDAVFileHandle" where
  "WebDAVFileHandle_ctor file_path flags_p threshold_mb auth_params_p =
     (if OpenForReading flags_p \<and> OpenForWriting flags_p then
        Inl (NotImplementedException ''Cannot open a WebDAV file for both reading and writing'')
      else if OpenForAppending flags_p then
        Inl (NotImplementedException ''Cannot open a WebDAV file for appending'')
      else
        Inr \<lparr> path = file_path, flags = flags_p, auth_params = auth_params_p,
              webdav_streaming_threshold_mb = threshold_mb, file_offset = 0,
              write_buffer = [], buffer_dirty = False,
              temp_file_path = [], using_temp_file = False \<rparr>)"

section \<open>String operations of the C++ standard library\<close>

text \<open>
  Positions are natural numbers; \<open>None\<close> stands for \<open>string::npos\<close>.
\<close>

definition StartsWith :: "string \<Rightarrow> string \<Rightarrow> bool" where
  "StartsWith s pre = (take (length pre) s = pre)"

definition EndsWith :: "string \<Rightarrow> string \<Rightarrow> bool" where
  "EndsWith s suf = (length suf \<le> length s \<and> drop (length s - length suf) s = suf)"

text \<open>\<open>find_at needle s i\<close>: the first match of \<open>needle\<close> in \<open>s\<close>, where \<open>s\<close> starts at position \<open>i\<close>.\<close>

fun find_at :: "string \<Rightarrow> string \<Rightarrow> nat \<Rightarrow> nat option" where
  "find_at needle [] i = (if needle = [] then Some i else None)"
| "find_at needle (c # cs) i =
     (if take (length needle) (c # cs) = needle then Some i else find_at needle cs (Suc i))"

text \<open>\<open>s.find(needle, pos)\<close>; a start position beyond the end finds nothing.\<close>

definition str_find :: "string \<Rightarrow> string \<Rightarrow> nat \<Rightarrow> nat option" where
  "str_find s needle pos = (if pos > length s then None else find_at needle (drop pos s) pos)"

text \<open>\<open>s.rfind(c)\<close> and \<open>s.rfind(c, pos)\<close>: the last position (not after \<open>pos\<close>) holding \<open>c\<close>.\<close>

fun rfind_at :: "char \<Rightarrow> string \<Rightarrow> nat \<Rightarrow> nat option \<Rightarrow> nat option" where
  "rfind_at c [] i found = found"
| "rfind_at c (x # xs) i found = rfind_at c xs (Suc i) (if x = c then Some i else found)"

definition str_rfind :: "string \<Rightarrow> char \<Rightarrow> nat option" where
  "str_rfind s c = rfind_at c s 0 None"




text \<open>\<open>s.find(t) != npos\<close>.\<close>

definition str_contains :: "string \<Rightarrow> string \<Rightarrow> bool" where
  "str_contains s t = (str_find s t 0 \<noteq> None)"

text \<open>Decimal digits of a number, as \<open>%d\<close> and \<open>to_string\<close> print a status code.\<close>

function to_string :: "nat \<Rightarrow> string" where
  "to_string n =
     (if n < 10 then [''0123456789'' ! n]
      else to_string (n div 10) @ [''0123456789'' ! (n mod 10)])"
  by pat_completeness auto
termination
  by (relation "measure id") auto

declare to_string.simps [simp del]

section \<open>URL translation (\<open>ParseUrl\<close>)\<close>

record ParsedWebDAVUrl =
  http_proto :: string
  host :: string
  url_path :: string

definition GetHTTPUrl :: "ParsedWebDAVUrl \<Rightarrow> string" where
  "GetHTTPUrl u = http_proto u @ ''://'' @ host u @ url_path u"

text \<open>The common tail of \<open>ParseUrl\<close>: split host and path at the first slash.\<close>

definition split_host_path :: "string \<Rightarrow> string \<Rightarrow> ParsedWebDAVUrl" where
  "split_host_path proto rest =
     (case str_find rest ''/'' 0 of
        Some slash_pos \<Rightarrow>
          \<lparr> http_proto = proto, host = take slash_pos rest, url_path = drop slash_pos rest \<rparr>
      | None \<Rightarrow> \<lparr> http_proto = proto, host = rest, url_path = ''/'' \<rparr>)"

definition ParseUrl :: "string \<Rightarrow> exception + ParsedWebDAVUrl" where
  "ParseUrl url =
     (if StartsWith url ''storagebox://'' then
        (let remainder = drop 13 url in
         case str_find remainder ''/'' 0 of
           Some slash_pos \<Rightarrow>
             Inr \<lparr> http_proto = ''https'',
                   host = take slash_pos remainder @ ''.your-storagebox.de'',
                   url_path = drop slash_pos remainder \<rparr>
         | None \<Rightarrow>
             Inr \<lparr> http_proto = ''https'', host = remainder @ ''.your-storagebox.de'',
                   url_path = ''/'' \<rparr>)
      else if StartsWith url ''webdav://'' then Inr (split_host_path ''http'' (drop 9 url))
      else if StartsWith url ''webdavs://'' then Inr (split_host_path ''https'' (drop 10 url))
      else if StartsWith url ''https://'' then Inr (split_host_path ''https'' (drop 8 url))
      else if StartsWith url ''http://'' then Inr (split_host_path ''http'' (drop 7 url))
      else Inl (IOException (''Invalid WebDAV URL: '' @ url)))"


section \<open>Requests and the remote server\<close>

text \<open>
  A request as the client sends it, reduced to the method, the URL and what it uploads.
  A PUT carries its body either from memory or streamed from a local file, whose
  contents at that moment are recorded. The server is any function from the requests
  seen so far and the current request to a response; the state threaded through the
  file system operations is the list of requests sent so far.
\<close>

datatype upload = FromMemory string | FromFile string string

datatype request =
    PUT string upload
  | MKCOL string
  | PROPFIND string nat

record response =
  status :: nat
  response_body :: string

type_synonym server = "request list \<Rightarrow> request \<Rightarrow> response"

definition send :: "server \<Rightarrow> request \<Rightarrow> request list \<Rightarrow> response \<times> request list" where
  "send srv rq trace = (srv trace rq, trace @ [rq])"

section \<open>Directory creation (\<open>CreateDirectory\<close>, \<open>CreateDirectoryRecursive\<close>)\<close>

text \<open>The loop that splits a path into its non-empty components.\<close>

fun split_components :: "string \<Rightarrow> string \<Rightarrow> string list" where
  "split_components current [] = (if current \<noteq> [] then [current] else [])"
| "split_components current (c # cs) =
     (if c = CHR ''/'' then
        (if current \<noteq> [] then current # split_components [] cs else split_components [] cs)
      else split_components (current @ [c]) cs)"

text \<open>The prefix (scheme and authority) under which the levels are created.\<close>

definition protocol_prefix_of :: "string \<Rightarrow> ParsedWebDAVUrl \<Rightarrow> string" where
  "protocol_prefix_of directory parsed_url =
     (if StartsWith directory ''storagebox://'' then
        (let remainder = drop 13 directory;
             username = (case str_find remainder ''/'' 0 of
                           Some slash_pos \<Rightarrow> take slash_pos remainder
                         | None \<Rightarrow> remainder)
         in ''storagebox://'' @ username)
      else if StartsWith directory ''webdav://'' then ''webdav://'' @ host parsed_url
      else if StartsWith directory ''webdavs://'' then ''webdavs://'' @ host parsed_url
      else http_proto parsed_url @ ''://'' @ host parsed_url)"

definition storage_full_message :: "string \<Rightarrow> string" where
  "storage_full_message directory =
     ''Failed to create directory '' @ directory @
     '': Storage is full. The WebDAV server has insufficient storage space available. Free up space or resize your storage.''"

definition create_failed_message :: "string \<Rightarrow> nat \<Rightarrow> string" where
  "create_failed_message directory st =
     ''Failed to create directory '' @ directory @ '': HTTP '' @ to_string st"

definition created :: "nat \<Rightarrow> bool" where
  "created st = (st = 201 \<or> st = 200 \<or> st = 204)"

text \<open>The text \<open>e.what()\<close> that the handler of \<open>CreateDirectoryRecursive\<close> inspects.\<close>

fun what :: "exception \<Rightarrow> string" where
  "what (IOException m) = m"
| "what (NotImplementedException m) = m"
| "what (InternalException m) = m"
| "what (HTTPException m) = m"
| "what (StdInvalidArgument m) = m"

definition is_storage_error :: "string \<Rightarrow> bool" where
  "is_storage_error error_msg =
     (str_contains error_msg ''Storage is full'' \<or> str_contains error_msg ''insufficient storage'')"

text \<open>
  The parent directory that \<open>CreateDirectory\<close> creates after a 404 or 409: the part
  before the last slash, provided that slash is not the first one after the scheme.
\<close>

definition parent_to_create :: "string \<Rightarrow> string option" where
  "parent_to_create directory =
     (case str_rfind directory CHR ''/'' of
        None \<Rightarrow> None
      | Some last_slash \<Rightarrow>
          if last_slash > 0 then
            (let parent_dir = take last_slash directory in
             case str_find parent_dir ''://'' 0 of
               None \<Rightarrow> None
             | Some protocol_end \<Rightarrow>
                 (case str_find parent_dir ''/'' (protocol_end + 3) of
                    None \<Rightarrow> None
                  | Some first_slash_after_protocol \<Rightarrow>
                      if last_slash > first_slash_after_protocol then Some parent_dir else None))
          else None)"

fun level_size :: "string list \<Rightarrow> nat" where
  "level_size [] = 0"
| "level_size (p # ps) = Suc (length p) + level_size ps"

lemma find_at_Some:
  "find_at needle s i = Some k \<Longrightarrow>
     i \<le> k \<and> k - i \<le> length s \<and> take (length needle) (drop (k - i) s) = needle"
proof (induction s arbitrary: i)
  case Nil
  then show ?case by (simp split: if_splits)
next
  case (Cons c cs)
  show ?case
  proof (cases "take (length needle) (c # cs) = needle")
    case True
    with Cons.prems show ?thesis by simp
  next
    case False
    with Cons.prems have f: "find_at needle cs (Suc i) = Some k" by simp
    from Cons.IH[OF f] have "Suc i \<le> k" "k - Suc i \<le> length cs"
      "take (length needle) (drop (k - Suc i) cs) = needle" by simp_all
    moreover from \<open>Suc i \<le> k\<close> have "k - i = Suc (k - Suc i)" by simp
    ultimately show ?thesis by simp
  qed
qed

lemma str_find_slash:
  assumes "str_find s ''/'' 0 = Some p"
  shows "p < length s \<and> (\<exists>rest. drop p s = CHR ''/'' # rest)"
proof -
  from assms have f: "find_at ''/'' s 0 = Some p" by (simp add: str_find_def)
  from find_at_Some[OF f] have t: "take 1 (drop p s) = ''/''" by simp
  then have ne: "drop p s \<noteq> []" by auto
  then have lt: "p < length s" by simp
  from ne obtain c rest where d: "drop p s = c # rest" by (cases "drop p s") auto
  with t have "c = CHR ''/''" by simp
  with d lt show ?thesis by simp
qed

lemma rfind_at_Some:
  "rfind_at c s i found = Some k \<Longrightarrow> found = Some k \<or> (i \<le> k \<and> k < i + length s)"
proof (induction s arbitrary: i found)
  case Nil
  then show ?case by simp
next
  case (Cons x xs)
  from Cons.prems have "rfind_at c xs (Suc i) (if x = c then Some i else found) = Some k" by simp
  from Cons.IH[OF this] show ?case by (auto split: if_splits)
qed

lemma parent_to_create_shorter:
  "parent_to_create directory = Some parent_dir \<Longrightarrow> length parent_dir < length directory"
proof -
  assume a: "parent_to_create directory = Some parent_dir"
  then obtain last_slash where ls: "str_rfind directory CHR ''/'' = Some last_slash"
    and p: "parent_dir = take last_slash directory"
    by (auto simp: parent_to_create_def Let_def split: option.splits if_splits)
  from ls have "last_slash < length directory"
    using rfind_at_Some[of "CHR ''/''" directory 0 None last_slash] by (simp add: str_rfind_def)
  with p show ?thesis by simp
qed

lemma length_le_level_size: "length parts \<le> level_size parts"
  by (induction parts) auto

lemma level_size_split_components:
  "level_size (split_components current s) \<le> length current + length s + 1"
proof (induction s arbitrary: current)
  case Nil
  then show ?case by simp
next
  case (Cons c cs)
  show ?case
  proof (cases "c = CHR ''/''")
    case True
    then show ?thesis using Cons.IH[of "[]"] by simp
  next
    case False
    then show ?thesis using Cons.IH[of "current @ [c]"] by simp
  qed
qed

lemma level_size_split_path:
  "level_size (split_components [] (CHR ''/'' # rest)) \<le> Suc (length rest)"
  using level_size_split_components[of "[]" rest] by simp

lemma split_host_path_size:
  "length (host (split_host_path proto rest))
     + level_size (split_components [] (url_path (split_host_path proto rest))) \<le> length rest"
proof (cases "str_find rest ''/'' 0")
  case None
  then show ?thesis by (simp add: split_host_path_def)
next
  case (Some p)
  from str_find_slash[OF Some] obtain tl where p: "p < length rest" and d: "drop p rest = CHR ''/'' # tl"
    by blast
  have "length (drop p rest) = Suc (length tl)" using d by simp
  then have "Suc (length tl) = length rest - p" by simp
  moreover have "level_size (split_components [] (CHR ''/'' # tl)) \<le> Suc (length tl)"
    by (rule level_size_split_path)
  ultimately show ?thesis using Some p d by (simp add: split_host_path_def)
qed

lemma StartsWith_length: "StartsWith s pre \<Longrightarrow> length pre \<le> length s"
proof -
  assume "StartsWith s pre"
  then have "length (take (length pre) s) = length pre" by (simp add: StartsWith_def)
  then show ?thesis by simp
qed

lemma create_levels_measure:
  assumes "ParseUrl directory = Inr b"
  shows "length (protocol_prefix_of directory b)
           + level_size (split_components [] (url_path b)) \<le> length directory"
proof (cases "StartsWith directory ''storagebox://''")
  case True
  note sb = this
  from StartsWith_length[OF sb] have len: "13 \<le> length directory" by simp
  show ?thesis
  proof (cases "str_find (drop 13 directory) ''/'' 0")
    case None
    with sb assms len show ?thesis
      by (auto simp: ParseUrl_def protocol_prefix_of_def Let_def)
  next
    case (Some p)
    from str_find_slash[OF Some] obtain tl where p: "p < length (drop 13 directory)"
      and d: "drop p (drop 13 directory) = CHR ''/'' # tl" by blast
    have "length (drop p (drop 13 directory)) = Suc (length tl)" using d by simp
    then have l: "Suc (length tl) = length directory - 13 - p" by simp
    have "level_size (split_components [] (CHR ''/'' # tl)) \<le> Suc (length tl)"
      by (rule level_size_split_path)
    with sb assms len Some p d l show ?thesis
      by (auto simp: ParseUrl_def protocol_prefix_of_def Let_def)
  qed
next
  case False
  note nsb = this
  show ?thesis
  proof (cases "StartsWith directory ''webdav://''")
    case True
    from StartsWith_length[OF True] have "9 \<le> length directory" by simp
    with nsb True assms split_host_path_size[of "''http''" "drop 9 directory"] show ?thesis
      by (auto simp: ParseUrl_def protocol_prefix_of_def)
  next
    case False
    note nwd = this
    show ?thesis
    proof (cases "StartsWith directory ''webdavs://''")
      case True
      from StartsWith_length[OF True] have "10 \<le> length directory" by simp
      with nsb nwd True assms split_host_path_size[of "''https''" "drop 10 directory"] show ?thesis
        by (auto simp: ParseUrl_def protocol_prefix_of_def)
    next
      case False
      note nwds = this
      show ?thesis
      proof (cases "StartsWith directory ''https://''")
        case True
        from StartsWith_length[OF True] have "8 \<le> length directory" by simp
        moreover have "http_proto (split_host_path ''https'' (drop 8 directory)) = ''https''"
          by (simp add: split_host_path_def split: option.splits)
        ultimately show ?thesis
          using nsb nwd nwds True assms split_host_path_size[of "''https''" "drop 8 directory"]
          by (auto simp: ParseUrl_def protocol_prefix_of_def)
      next
        case False
        note nhs = this
        show ?thesis
        proof (cases "StartsWith directory ''http://''")
          case True
          from StartsWith_length[OF True] have "7 \<le> length directory" by simp
          moreover have "http_proto (split_host_path ''http'' (drop 7 directory)) = ''http''"
            by (simp add: split_host_path_def split: option.splits)
          ultimately show ?thesis
            using nsb nwd nwds nhs True assms split_host_path_size[of "''http''" "drop 7 directory"]
            by (auto simp: ParseUrl_def protocol_prefix_of_def)
        next
          case False
          with nsb nwd nwds nhs assms show ?thesis by (simp add: ParseUrl_def)
        qed
      qed
    qed
  qed
qed

text \<open>
  The URL of the MKCOL request, and the block \<open>Check final result\<close> of \<open>CreateDirectory\<close>
  (lines 676-696), which decides on the last response received.
\<close>

definition mkcol_url :: "ParsedWebDAVUrl \<Rightarrow> string" where
  "mkcol_url parsed_url =
     (if EndsWith (GetHTTPUrl parsed_url) ''/'' then GetHTTPUrl parsed_url
      else GetHTTPUrl parsed_url @ ''/'')"

definition check_final_result ::
  "string \<Rightarrow> response \<Rightarrow> request list \<Rightarrow> (exception + unit) \<times> request list" where
  "check_final_result directory resp trace =
     (if \<not> created (status resp) then
        (if status resp = 507 then (Inl (IOException (storage_full_message directory)), trace)
         else if status resp \<noteq> 405
           then (Inl (IOException (create_failed_message directory (status resp))), trace)
         else (Inr (), trace))
      else (Inr (), trace))"

function CreateDirectory :: "server \<Rightarrow> string \<Rightarrow> request list \<Rightarrow> (exception + unit) \<times> request list"
  and CreateDirectoryRecursive ::
    "server \<Rightarrow> string \<Rightarrow> request list \<Rightarrow> (exception + unit) \<times> request list"
  and create_levels ::
    "server \<Rightarrow> string \<Rightarrow> string \<Rightarrow> string list \<Rightarrow> request list \<Rightarrow> (exception + unit) \<times> request list"
where
  "CreateDirectory srv directory trace =
     (case ParseUrl directory of
        Inl e \<Rightarrow> (Inl e, trace)
      | Inr parsed_url \<Rightarrow>
          (case send srv (MKCOL (mkcol_url parsed_url)) trace of
             (resp, trace1) \<Rightarrow>
               if created (status resp) then (Inr (), trace1)
               else if status resp = 507 then (Inl (IOException (storage_full_message directory)), trace1)
               else
                 (case (if status resp = 404 \<or> status resp = 409
                        then parent_to_create directory else None) of
                    None \<Rightarrow> check_final_result directory resp trace1
                  | Some parent_dir \<Rightarrow>
                      (case CreateDirectoryRecursive srv parent_dir trace1 of
                         (Inl e, trace2) \<Rightarrow> (Inl e, trace2)
                       | (Inr u, trace2) \<Rightarrow>
                           (case send srv (MKCOL (mkcol_url parsed_url)) trace2 of
                              (resp2, trace3) \<Rightarrow> check_final_result directory resp2 trace3)))))"
| "CreateDirectoryRecursive srv directory trace =
     (case ParseUrl directory of
        Inl e \<Rightarrow> (Inl e, trace)
      | Inr parsed_url \<Rightarrow>
          create_levels srv (protocol_prefix_of directory parsed_url) []
            (split_components [] (url_path parsed_url)) trace)"
| "create_levels srv protocol_prefix accumulated_path [] trace = (Inr (), trace)"
| "create_levels srv protocol_prefix accumulated_path (part # parts) trace =
     (let accumulated = accumulated_path @ ''/'' @ part;
          full_path = protocol_prefix @ accumulated in
      case CreateDirectory srv full_path trace of
        (Inr u, trace1) \<Rightarrow> create_levels srv protocol_prefix accumulated parts trace1
      | (Inl (IOException m), trace1) \<Rightarrow>
          if is_storage_error m then (Inl (IOException m), trace1)
          else create_levels srv protocol_prefix accumulated parts trace1
      | (Inl e, trace1) \<Rightarrow> (Inl e, trace1))"
  by pat_completeness auto
termination
proof (relation "inv_image (less_than <*lex*> less_than)
     (\<lambda>x. case x of
        Inl (srv, directory, trace) \<Rightarrow> (length directory, 0)
      | Inr (Inl (srv, directory, trace)) \<Rightarrow> (length directory, length directory + 2)
      | Inr (Inr (srv, pre, acc, parts, trace)) \<Rightarrow>
          (length pre + length acc + level_size parts, Suc (length parts)))", goal_cases)
  case 1
  show ?case by (intro wf_inv_image wf_lex_prod wf_less_than)
next
  case (2 srv directory trace b xa y x2)
  then have "parent_to_create directory = Some x2" by (simp split: if_splits)
  from parent_to_create_shorter[OF this] show ?case by simp
next
  case (3 srv directory trace b)
  then have "ParseUrl directory = Inr b" by simp
  from create_levels_measure[OF this]
  have m: "length (protocol_prefix_of directory b)
      + level_size (split_components [] (url_path b)) \<le> length directory" .
  have "length (split_components [] (url_path b)) \<le> length directory"
    using m length_le_level_size[of "split_components [] (url_path b)"] by simp
  with m show ?case by auto
qed auto

declare CreateDirectory.simps [simp del]
declare CreateDirectoryRecursive.simps [simp del]


section \<open>Opening a handle (\<open>CreateHandle\<close>)\<close>

text \<open>
  \<open>CreateHandle\<close> reads the credentials with the original URL, translates the URL and
  constructs the handle on the translated (HTTP) URL. The credentials and the setting
  \<open>webdav_streaming_threshold_mb\<close> come from the surrounding framework and are arguments.
\<close>

definition CreateHandle ::
  "string \<Rightarrow> FileOpenFlags \<Rightarrow> nat \<Rightarrow> WebDAVAuthParams \<Rightarrow> exception + WebDAVFileHandle" where
  "CreateHandle file_path flags_p threshold_mb auth_params_p =
     (case ParseUrl file_path of
        Inl e \<Rightarrow> Inl e
      | Inr parsed_url \<Rightarrow>
          WebDAVFileHandle_ctor (GetHTTPUrl parsed_url) flags_p threshold_mb auth_params_p)"

text \<open>
  Opening a file. \<open>WebDAVFileSystem::OpenFileExtended\<close> delegates to the framework's
  \<open>HTTPFileSystem::OpenFileExtended\<close>, which creates the handle through \<open>CreateHandle\<close> and
  then calls \<open>Initialize\<close> on it; \<open>Glob\<close> writes the same two steps out (lines 1181-1183).
  \<open>Initialize\<close> is framework code and is the parameter \<open>initialize\<close>: the remote operations of
  opening are the requests it appends to the trace.
\<close>

definition OpenFileExtended ::
  "(WebDAVFileHandle \<Rightarrow> request list \<Rightarrow> (exception + WebDAVFileHandle) \<times> request list)
     \<Rightarrow> string \<Rightarrow> FileOpenFlags \<Rightarrow> nat \<Rightarrow> WebDAVAuthParams \<Rightarrow> request list
     \<Rightarrow> (exception + WebDAVFileHandle) \<times> request list" where
  "OpenFileExtended initialize file_path flags_p threshold_mb auth_params_p trace =
     (case CreateHandle file_path flags_p threshold_mb auth_params_p of
        Inl e \<Rightarrow> (Inl e, trace)
      | Inr handle \<Rightarrow> initialize handle trace)"

section \<open>The write buffer (\<open>Write\<close>) and the commit (\<open>FlushBuffer\<close>, \<open>Close\<close>, \<open>FileSync\<close>)\<close>

text \<open>
  The local side: the files under \<open>/tmp\<close> as a map from path to contents, and what the
  operating system answers. \<open>mkstemp_name\<close> is the name \<open>mkstemp\<close> fills into the template
  (\<open>None\<close>: it fails), \<open>fopen_fails\<close> makes every \<open>fopen\<close> return a null pointer.
\<close>

type_synonym local_files = "string \<rightharpoonup> string"

record local_env =
  mkstemp_name :: "string option"
  fopen_fails :: bool

text \<open>
  The state an operation on an open handle works on: the handle, the local files, and the
  requests sent so far. An operation returns the state also when it throws, since the
  handle is updated in place.
\<close>

type_synonym handle_state = "WebDAVFileHandle \<times> local_files \<times> request list"

definition file_contents :: "local_files \<Rightarrow> string \<Rightarrow> string" where
  "file_contents files name = (case files name of Some c \<Rightarrow> c | None \<Rightarrow> [])"

text \<open>The spill branch of \<open>Write\<close> (lines 995-1020).\<close>

definition spill_to_temp_file ::
  "local_env \<Rightarrow> WebDAVFileHandle \<Rightarrow> local_files \<Rightarrow> (exception + unit) \<times> WebDAVFileHandle \<times> local_files"
where
  "spill_to_temp_file env wfh files =
     (case mkstemp_name env of
        None \<Rightarrow> (Inl (IOException ''Failed to create temp file for streaming upload''), wfh, files)
      | Some name \<Rightarrow>
          let wfh1 = wfh \<lparr> temp_file_path := name \<rparr>;
              files1 = files(name \<mapsto> []) in
          if fopen_fails env then
            (Inl (IOException (''Failed to open temp file '' @ name)), wfh1, files1)
          else
            (Inr (), wfh1 \<lparr> using_temp_file := True, write_buffer := [] \<rparr>,
             files1(name \<mapsto> write_buffer wfh)))"

definition streaming_threshold :: "WebDAVFileHandle \<Rightarrow> nat" where
  "streaming_threshold wfh = (webdav_streaming_threshold_mb wfh * 1024 * 1024) mod 2 ^ 64"

definition expected_location :: "WebDAVFileHandle \<Rightarrow> nat" where
  "expected_location wfh = (if using_temp_file wfh then file_offset wfh else length (write_buffer wfh))"

definition Write ::
  "local_env \<Rightarrow> handle_state \<Rightarrow> string \<Rightarrow> nat \<Rightarrow> (exception + unit) \<times> handle_state" where
  "Write env st buffer location =
     (case st of (wfh, files, trace) \<Rightarrow>
        if location \<noteq> expected_location wfh then
          (Inl (IOException (''WebDAV does not support non-sequential writes. Expected location ''
                  @ to_string (expected_location wfh) @ '' but got '' @ to_string location)),
           wfh, files, trace)
        else
          (case (if \<not> using_temp_file wfh
                    \<and> length (write_buffer wfh) + length buffer > streaming_threshold wfh
                 then spill_to_temp_file env wfh files else (Inr (), wfh, files)) of
             (Inl e, wfh1, files1) \<Rightarrow> (Inl e, wfh1, files1, trace)
           | (Inr u, wfh1, files1) \<Rightarrow>
               if using_temp_file wfh1 then
                 (if fopen_fails env then
                    (Inl (IOException (''Failed to open temp file '' @ temp_file_path wfh1 @ '' for append'')),
                     wfh1, files1, trace)
                  else
                    (Inr (),
                     wfh1 \<lparr> buffer_dirty := True, file_offset := file_offset wfh1 + length buffer \<rparr>,
                     files1(temp_file_path wfh1 \<mapsto> file_contents files1 (temp_file_path wfh1) @ buffer),
                     trace))
               else
                 (Inr (),
                  wfh1 \<lparr> write_buffer := write_buffer wfh1 @ buffer, buffer_dirty := True,
                         file_offset := file_offset wfh1 + length buffer \<rparr>,
                  files1, trace)))"

text \<open>
  The first upload of \<open>FlushBuffer\<close> (lines 73-100): from the staging file through
  \<open>PutRequestFromFile\<close> when the handle has spilled, from the memory buffer otherwise.
\<close>

definition first_upload ::
  "local_env \<Rightarrow> server \<Rightarrow> string \<Rightarrow> handle_state \<Rightarrow> (exception + response) \<times> handle_state" where
  "first_upload env srv http_url st =
     (case st of (wfh, files, trace) \<Rightarrow>
        if using_temp_file wfh then
          (case (if write_buffer wfh \<noteq> [] \<and> \<not> fopen_fails env
                 then (wfh \<lparr> write_buffer := [] \<rparr>,
                       files(temp_file_path wfh \<mapsto>
                               file_contents files (temp_file_path wfh) @ write_buffer wfh))
                 else (wfh, files)) of
             (wfh1, files1) \<Rightarrow>
               (case files1 (temp_file_path wfh1) of
                  None \<Rightarrow>
                    (Inl (IOException (''Failed to stat temp file '' @ temp_file_path wfh1)),
                     wfh1, files1, trace)
                | Some contents \<Rightarrow>
                    if fopen_fails env then
                      (Inl (IOException (''Failed to open temp file '' @ temp_file_path wfh1
                              @ '' for streaming upload'')), wfh1, files1, trace)
                    else
                      (case send srv (PUT http_url (FromFile (temp_file_path wfh1) contents)) trace of
                         (resp, trace1) \<Rightarrow> (Inr resp, wfh1, files1, trace1))))
        else
          (case send srv (PUT http_url (FromMemory (write_buffer wfh))) trace of
             (resp, trace1) \<Rightarrow> (Inr resp, wfh, files, trace1)))"

text \<open>
  The retry of \<open>FlushBuffer\<close> (lines 104-125) after a 400, 404 or 409: create the parent
  directories, then PUT again. Every exception inside the \<open>try\<close> block is swallowed and
  the first response stays. The second PUT is \<open>PutRequest\<close> on \<open>write_buffer\<close>.
\<close>

definition retry_after_mkdir ::
  "server \<Rightarrow> string \<Rightarrow> WebDAVFileHandle \<Rightarrow> response \<Rightarrow> request list \<Rightarrow> response \<times> request list" where
  "retry_after_mkdir srv http_url wfh resp trace =
     (if status resp = 400 \<or> status resp = 404 \<or> status resp = 409 then
        (case str_rfind (path wfh) CHR ''/'' of
           None \<Rightarrow> (resp, trace)
         | Some last_slash \<Rightarrow>
             (case CreateDirectoryRecursive srv (take last_slash (path wfh)) trace of
                (Inl e, trace1) \<Rightarrow> (resp, trace1)
              | (Inr u, trace1) \<Rightarrow> send srv (PUT http_url (FromMemory (write_buffer wfh))) trace1))
      else (resp, trace))"

definition FlushBuffer ::
  "local_env \<Rightarrow> server \<Rightarrow> handle_state \<Rightarrow> (exception + unit) \<times> handle_state" where
  "FlushBuffer env srv st =
     (case st of (wfh, files, trace) \<Rightarrow>
        if \<not> buffer_dirty wfh \<and> \<not> using_temp_file wfh then (Inr (), st)
        else
          (case ParseUrl (path wfh) of
             Inl e \<Rightarrow> (Inl e, st)
           | Inr parsed_url \<Rightarrow>
               (case first_upload env srv (GetHTTPUrl parsed_url) st of
                  (Inl e, st1) \<Rightarrow> (Inl e, st1)
                | (Inr resp, wfh1, files1, trace1) \<Rightarrow>
                    (case retry_after_mkdir srv (GetHTTPUrl parsed_url) wfh1 resp trace1 of
                       (resp2, trace2) \<Rightarrow>
                         if status resp2 \<noteq> 200 \<and> status resp2 \<noteq> 201 \<and> status resp2 \<noteq> 204 then
                           (Inl (IOException (''Failed to write to file '' @ path wfh1 @ '': HTTP ''
                                   @ to_string (status resp2))), wfh1, files1, trace2)
                         else
                           (Inr (), wfh1 \<lparr> write_buffer := [], buffer_dirty := False \<rparr>,
                            files1, trace2)))))"

definition FileSync ::
  "local_env \<Rightarrow> server \<Rightarrow> handle_state \<Rightarrow> (exception + unit) \<times> handle_state" where
  "FileSync env srv st = FlushBuffer env srv st"

definition Close ::
  "local_env \<Rightarrow> server \<Rightarrow> handle_state \<Rightarrow> (exception + unit) \<times> handle_state" where
  "Close env srv st =
     (case FlushBuffer env srv st of
        (Inl e, st1) \<Rightarrow> (Inl e, st1)
      | (Inr u, wfh, files, trace) \<Rightarrow>
          if using_temp_file wfh \<and> temp_file_path wfh \<noteq> [] then
            (Inr (), wfh \<lparr> temp_file_path := [], using_temp_file := False \<rparr>,
             files(temp_file_path wfh := None), trace)
          else (Inr (), wfh, files, trace))"

text \<open>
  A run of \<open>Write\<close> calls in which the offset of each call is the running total of the
  bytes written by the calls before it.
\<close>

fun write_sequence ::
  "local_env \<Rightarrow> handle_state \<Rightarrow> nat \<Rightarrow> string list \<Rightarrow> (exception + unit) \<times> handle_state" where
  "write_sequence env st offset [] = (Inr (), st)"
| "write_sequence env st offset (buffer # rest) =
     (case Write env st buffer offset of
        (Inl e, st1) \<Rightarrow> (Inl e, st1)
      | (Inr u, st1) \<Rightarrow> write_sequence env st1 (offset + length buffer) rest)"

section \<open>The request executor (httpfs_curl_client.cpp)\<close>

text \<open>
  The curl result codes that \<open>IsRetryableCurlError\<close> names, \<open>CURLE_OK\<close>, and one
  constructor for every other code of libcurl.
\<close>

datatype CURLcode =
    CURLE_OK
  | CURLE_COULDNT_CONNECT
  | CURLE_COULDNT_RESOLVE_HOST
  | CURLE_COULDNT_RESOLVE_PROXY
  | CURLE_OPERATION_TIMEDOUT
  | CURLE_SEND_ERROR
  | CURLE_RECV_ERROR
  | CURLE_PARTIAL_FILE
  | CURLE_GOT_NOTHING
  | CURLE_OTHER_ERROR

fun IsRetryableCurlError :: "CURLcode \<Rightarrow> bool" where
  "IsRetryableCurlError CURLE_COULDNT_CONNECT = True"
| "IsRetryableCurlError CURLE_COULDNT_RESOLVE_HOST = True"
| "IsRetryableCurlError CURLE_COULDNT_RESOLVE_PROXY = True"
| "IsRetryableCurlError CURLE_OPERATION_TIMEDOUT = True"
| "IsRetryableCurlError CURLE_SEND_ERROR = True"
| "IsRetryableCurlError CURLE_RECV_ERROR = True"
| "IsRetryableCurlError CURLE_PARTIAL_FILE = True"
| "IsRetryableCurlError CURLE_GOT_NOTHING = True"
| "IsRetryableCurlError _ = False"

definition IsRetryableHTTPStatus :: "nat \<Rightarrow> bool" where
  "IsRetryableHTTPStatus status_code =
     (status_code = 429 \<or> status_code = 500 \<or> status_code = 502 \<or> status_code = 503
      \<or> status_code = 504)"

text \<open>
  One execution of the prepared request (\<open>curl->Execute()\<close> followed by
  \<open>curl_easy_getinfo(CURLINFO_RESPONSE_CODE)\<close>) yields a curl code, a response code and
  the body bytes the write callback appended. The simulated outcomes are a function of
  the number of executions made so far.
\<close>

type_synonym outcome = "CURLcode \<times> nat \<times> string"

record RequestInfo =
  body :: string
  response_code :: nat
  executions :: nat
  backoffs :: "int list"

text \<open>
  \<open>ExecuteWithRetry\<close> (lines 693-751): the loop \<open>for (attempt = 0; attempt <= max_retries;
  attempt++)\<close>. \<open>res\<close> is \<open>None\<close> while the local variable is uninitialised, which is what
  the final \<open>return res\<close> returns when the loop body never runs. \<open>backoffs\<close> records the
  argument of every \<open>ExponentialBackoff\<close> call.
\<close>

function ExecuteWithRetry_loop ::
  "(nat \<Rightarrow> outcome) \<Rightarrow> int \<Rightarrow> int \<Rightarrow> CURLcode option \<Rightarrow> RequestInfo
     \<Rightarrow> CURLcode option \<times> RequestInfo" where
  "ExecuteWithRetry_loop exec max_retries attempt res info =
     (if attempt \<le> max_retries then
        (case exec (executions info) of
           (r, code, received) \<Rightarrow>
             let info1 = info \<lparr> body := body info @ received, response_code := code,
                                executions := executions info + 1 \<rparr> in
             if r = CURLE_OK \<and> \<not> IsRetryableHTTPStatus code then (Some r, info1)
             else
               let should_retry =
                     (if r \<noteq> CURLE_OK \<and> IsRetryableCurlError r then True
                      else if IsRetryableHTTPStatus code then True
                      else False) in
               if attempt \<ge> max_retries then (Some r, info1)
               else if should_retry then
                 ExecuteWithRetry_loop exec max_retries (attempt + 1) (Some r)
                   (info1 \<lparr> body := [], response_code := 0,
                            backoffs := backoffs info1 @ [attempt] \<rparr>)
               else (Some r, info1))
      else (res, info))"
  by pat_completeness auto
termination
  by (relation "measure (\<lambda>(exec, max_retries, attempt, res, info). nat (max_retries - attempt + 1))")
     auto

text \<open>
  The member \<open>int max_retries\<close> of the client and the line of the constructor that fills
  it (line 273): \<open>static_cast<int>\<close> of the 64-bit setting \<open>webdav_max_retries\<close> keeps the
  low 32 bits and reads them as a signed number. Inside the loop \<open>attempt\<close> starts at 0 and
  is incremented only while it is below \<open>max_retries\<close>, so it stays within \<open>int\<close>.
\<close>

definition static_cast_int :: "int \<Rightarrow> int" where
  "static_cast_int v = (v + 2147483648) mod 4294967296 - 2147483648"

record HTTPFSCurlClient =
  max_retries :: int

definition HTTPFSCurlClient_ctor :: "int \<Rightarrow> HTTPFSCurlClient" where
  "HTTPFSCurlClient_ctor webdav_max_retries =
     \<lparr> max_retries = static_cast_int webdav_max_retries \<rparr>"

definition ExecuteWithRetry ::
  "(nat \<Rightarrow> outcome) \<Rightarrow> HTTPFSCurlClient \<Rightarrow> RequestInfo \<Rightarrow> CURLcode option \<times> RequestInfo" where
  "ExecuteWithRetry exec client info =
     ExecuteWithRetry_loop exec (max_retries client) 0 None info"

text \<open>
  The classification of one outcome that the loop applies: retried (when attempts
  remain) exactly if \<open>should_retry\<close> becomes true.
\<close>

definition retryable :: "outcome \<Rightarrow> bool" where
  "retryable out =
     (case out of (r, code, received) \<Rightarrow>
        (r \<noteq> CURLE_OK \<and> IsRetryableCurlError r) \<or> IsRetryableHTTPStatus code)"

definition fresh_request :: RequestInfo where
  "fresh_request = \<lparr> body = [], response_code = 0, executions = 0, backoffs = [] \<rparr>"

text \<open>Simulated outcomes: the server answers 503 to every execution.\<close>

definition always_503 :: "nat \<Rightarrow> outcome" where
  "always_503 n = (CURLE_OK, 503, [])"

section \<open>Parsing a multi-status body (\<open>ParsePropfindResponse\<close>)\<close>

text \<open>
  \<open>std::stoi(hex, nullptr, 16)\<close> on the two characters after a percent sign, as \<open>strtol\<close>
  reads them: leading white space is skipped, a sign is accepted, then hexadecimal digits
  are read as far as they go (in \<open>0x\<close> only the \<open>0\<close> is read, no digit follows the prefix);
  no digit at all is \<open>std::invalid_argument\<close>.
\<close>

definition hex_digit :: "char \<Rightarrow> nat option" where
  "hex_digit c =
     (let n = (of_char c :: nat) in
      if 48 \<le> n \<and> n \<le> 57 then Some (n - 48)
      else if 97 \<le> n \<and> n \<le> 102 then Some (n - 87)
      else if 65 \<le> n \<and> n \<le> 70 then Some (n - 55)
      else None)"

definition isspace :: "char \<Rightarrow> bool" where
  "isspace c = (let n = (of_char c :: nat) in n = 32 \<or> (9 \<le> n \<and> n \<le> 13))"

definition stoi_hex :: "char \<Rightarrow> char \<Rightarrow> exception + int" where
  "stoi_hex a b =
     (case hex_digit a of
        Some x \<Rightarrow> (case hex_digit b of Some y \<Rightarrow> Inr (int (16 * x + y)) | None \<Rightarrow> Inr (int x))
      | None \<Rightarrow>
          if isspace a then
            (case hex_digit b of Some y \<Rightarrow> Inr (int y) | None \<Rightarrow> Inl (StdInvalidArgument ''stoi''))
          else if a = CHR ''+'' then
            (case hex_digit b of Some y \<Rightarrow> Inr (int y) | None \<Rightarrow> Inl (StdInvalidArgument ''stoi''))
          else if a = CHR ''-'' then
            (case hex_digit b of Some y \<Rightarrow> Inr (- int y) | None \<Rightarrow> Inl (StdInvalidArgument ''stoi''))
          else Inl (StdInvalidArgument ''stoi''))"

text \<open>\<open>static_cast<char>\<close> of an \<open>int\<close>: the low eight bits.\<close>

definition char_of_int :: "int \<Rightarrow> char" where
  "char_of_int v =
     (let n = nat (v mod 256) in
      Char (odd n) (odd (n div 2)) (odd (n div 4)) (odd (n div 8))
           (odd (n div 16)) (odd (n div 32)) (odd (n div 64)) (odd (n div 128)))"

text \<open>
  The decoding loop: a percent sign with at least two characters after it is replaced by
  the character that \<open>stoi\<close> reads from those two; every other character is kept.
\<close>

fun url_decode :: "string \<Rightarrow> exception + string" where
  "url_decode [] = Inr []"
| "url_decode (c # a # b # rest) =
     (if c = CHR ''%'' then
        (case stoi_hex a b of
           Inl e \<Rightarrow> Inl e
         | Inr v \<Rightarrow> (case url_decode rest of Inl e \<Rightarrow> Inl e | Inr d \<Rightarrow> Inr (char_of_int v # d)))
      else (case url_decode (a # b # rest) of Inl e \<Rightarrow> Inl e | Inr d \<Rightarrow> Inr (c # d)))"
| "url_decode (c # rest) = (case url_decode rest of Inl e \<Rightarrow> Inl e | Inr d \<Rightarrow> Inr (c # d))"

text \<open>
  The loop condition \<open>(pos = xml.find("<D:href>", pos)) != npos || (pos = xml.find("<href>",
  pos)) != npos\<close>. When the first search fails it has already assigned \<open>npos\<close> to \<open>pos\<close>,
  and the second search starts there. \<open>find_from\<close> is \<open>find\<close> with a start position that
  may be \<open>npos\<close> (\<open>None\<close>); \<open>npos\<close> is beyond the end of every string.
\<close>

definition find_from :: "string \<Rightarrow> string \<Rightarrow> nat option \<Rightarrow> nat option" where
  "find_from s needle pos = (case pos of None \<Rightarrow> None | Some p \<Rightarrow> str_find s needle p)"

definition next_href :: "string \<Rightarrow> nat \<Rightarrow> nat option" where
  "next_href xml pos =
     (case find_from xml ''<D:href>'' (Some pos) of
        Some p \<Rightarrow> Some p
      | None \<Rightarrow> find_from xml ''<href>'' None)"

text \<open>
  One round of the loop body up to the decoded reference: the position after the closing
  tag and the raw reference, or \<open>None\<close> when the loop ends (no opening tag, or \<open>break\<close> for
  want of a closing tag).
\<close>

definition href_at :: "string \<Rightarrow> nat \<Rightarrow> (nat \<times> string) option" where
  "href_at xml pos =
     (case next_href xml pos of
        None \<Rightarrow> None
      | Some p \<Rightarrow>
          let tag_open = (if take 8 (drop p xml) = ''<D:href>'' then ''<D:href>'' else ''<href>'');
              tag_close = (if tag_open = ''<D:href>'' then ''</D:href>'' else ''</href>'');
              start = p + length tag_open in
          (case str_find xml tag_close start of
             None \<Rightarrow> None
           | Some end_pos \<Rightarrow>
               Some (end_pos + length tag_close, take (end_pos - start) (drop start xml))))"

lemma find_at_bounds:
  "find_at needle s i = Some k \<Longrightarrow> i \<le> k \<and> k + length needle \<le> i + length s"
proof -
  assume a: "find_at needle s i = Some k"
  from find_at_Some[OF a] have ik: "i \<le> k" and t: "take (length needle) (drop (k - i) s) = needle"
    by simp_all
  from t have "length (take (length needle) (drop (k - i) s)) = length needle" by simp
  then have "length needle \<le> length s - (k - i)" by simp
  moreover from find_at_Some[OF a] have "k - i \<le> length s" by simp
  ultimately show ?thesis using ik by simp
qed

lemma str_find_bounds:
  "str_find s needle pos = Some k \<Longrightarrow> pos \<le> k \<and> k + length needle \<le> length s"
proof -
  assume a: "str_find s needle pos = Some k"
  then have p: "pos \<le> length s" and f: "find_at needle (drop pos s) pos = Some k"
    by (auto simp: str_find_def split: if_splits)
  from find_at_bounds[OF f] p show ?thesis by simp
qed

lemma href_at_advances:
  assumes "href_at xml pos = Some (next_pos, href)"
  shows "pos < next_pos \<and> next_pos \<le> length xml"
proof -
  from assms obtain p where p: "next_href xml pos = Some p"
    by (auto simp: href_at_def split: option.splits)
  then have f: "str_find xml ''<D:href>'' pos = Some p"
    by (auto simp: next_href_def find_from_def split: option.splits)
  from str_find_bounds[OF f] have pp: "pos \<le> p" by simp
  define tag_open where "tag_open = (if take 8 (drop p xml) = ''<D:href>'' then ''<D:href>'' else ''<href>'')"
  define tag_close where "tag_close = (if tag_open = ''<D:href>'' then ''</D:href>'' else ''</href>'')"
  from assms p obtain end_pos where e: "str_find xml tag_close (p + length tag_open) = Some end_pos"
    and n: "next_pos = end_pos + length tag_close"
    by (auto simp: href_at_def Let_def tag_open_def tag_close_def split: option.splits)
  from str_find_bounds[OF e] have "p + length tag_open \<le> end_pos" "end_pos + length tag_close \<le> length xml"
    by simp_all
  moreover have "0 < length tag_close" by (simp add: tag_close_def)
  ultimately show ?thesis using pp n by arith
qed

function collect_hrefs :: "(string \<Rightarrow> bool) \<Rightarrow> string \<Rightarrow> nat \<Rightarrow> exception + string list" where
  "collect_hrefs keep xml pos =
     (case href_at xml pos of
        None \<Rightarrow> Inr []
      | Some (next_pos, href) \<Rightarrow>
          (case url_decode href of
             Inl e \<Rightarrow> Inl e
           | Inr decoded_href \<Rightarrow>
               (case collect_hrefs keep xml next_pos of
                  Inl e \<Rightarrow> Inl e
                | Inr result \<Rightarrow> Inr (if keep decoded_href then decoded_href # result else result))))"
  by pat_completeness auto
termination
proof (relation "measure (\<lambda>(keep, xml, pos). length xml - pos)", goal_cases)
  case 1
  show ?case by simp
next
  case (2 keep xml pos x2 x y x2a)
  then have "href_at xml pos = Some (x, y)" by simp
  from href_at_advances[OF this] have "length xml - x < length xml - pos" by arith
  then show ?case by simp
qed

declare collect_hrefs.simps [simp del]

definition ParsePropfindResponse :: "string \<Rightarrow> string \<Rightarrow> exception + string list" where
  "ParsePropfindResponse xml_response base_path =
     collect_hrefs (\<lambda>decoded_href. \<not> EndsWith decoded_href ''/'') xml_response 0"

text \<open>
  Bodies built from namespace-prefixed reference elements. An item is the text before an
  element and the value inside it; \<open>tag_starts_in needle sep follow\<close> tells whether \<open>needle\<close>
  starts somewhere inside \<open>sep\<close> when \<open>follow\<close> comes after it. An item is well separated
  when no opening tag starts in its leading text and no closing tag starts in its value.
  \<open>decode_all\<close> decodes the values in order and fails at the first one that fails.
\<close>

fun tag_starts_in :: "string \<Rightarrow> string \<Rightarrow> string \<Rightarrow> bool" where
  "tag_starts_in needle [] follow = False"
| "tag_starts_in needle (c # sep) follow =
     (take (length needle) (c # sep @ follow) = needle \<or> tag_starts_in needle sep follow)"

definition reference :: "string \<times> string \<Rightarrow> string" where
  "reference item = fst item @ ''<D:href>'' @ snd item @ ''</D:href>''"

definition well_separated :: "string \<times> string \<Rightarrow> bool" where
  "well_separated item =
     (\<not> tag_starts_in ''<D:href>'' (fst item) ''<D:href>''
      \<and> \<not> tag_starts_in ''</D:href>'' (snd item) ''</D:href>'')"

fun decode_all :: "string list \<Rightarrow> exception + string list" where
  "decode_all [] = Inr []"
| "decode_all (v # vs) =
     (case url_decode v of
        Inl e \<Rightarrow> Inl e
      | Inr d \<Rightarrow> (case decode_all vs of Inl e \<Rightarrow> Inl e | Inr ds \<Rightarrow> Inr (d # ds)))"


section \<open>Percent-encoded values\<close>

text \<open>
  A value is well formed when every percent sign in it is followed by two hexadecimal
  digits. \<open>percent_decode_spec\<close> is percent-decoding as the specification words it: each escape
  of a percent sign and two hexadecimal digits becomes the byte they denote, and every
  other character stands for itself.
\<close>

fun well_formed_escapes :: "string \<Rightarrow> bool" where
  "well_formed_escapes [] = True"
| "well_formed_escapes (c # a # b # rest) =
     (if c = CHR ''%'' then hex_digit a \<noteq> None \<and> hex_digit b \<noteq> None \<and> well_formed_escapes rest
      else well_formed_escapes (a # b # rest))"
| "well_formed_escapes (c # rest) = (c \<noteq> CHR ''%'' \<and> well_formed_escapes rest)"

fun percent_decode_spec :: "string \<Rightarrow> string" where
  "percent_decode_spec [] = []"
| "percent_decode_spec (c # a # b # rest) =
     (case (c = CHR ''%'', hex_digit a, hex_digit b) of
        (True, Some x, Some y) \<Rightarrow> char_of_int (int (16 * x + y)) # percent_decode_spec rest
      | _ \<Rightarrow> c # percent_decode_spec (a # b # rest))"
| "percent_decode_spec (c # rest) = c # percent_decode_spec rest"


section \<open>Glob resolution (\<open>WebDAVFileSystem::Glob\<close>)\<close>








section \<open>What a run of listing requests lists\<close>





section \<open>What a handle holds\<close>

text \<open>
  The bytes a handle has accepted and not yet given up: the staging file followed by the
  memory buffer once the handle has spilled, the memory buffer before. \<open>committed_upload\<close>
  is the body source a commit starts with: streamed from the staging file after a spill,
  the memory buffer otherwise.
\<close>

definition buffered_content :: "WebDAVFileHandle \<Rightarrow> local_files \<Rightarrow> string" where
  "buffered_content wfh files =
     (if using_temp_file wfh then file_contents files (temp_file_path wfh) @ write_buffer wfh
      else write_buffer wfh)"

definition committed_upload :: "WebDAVFileHandle \<Rightarrow> local_files \<Rightarrow> upload" where
  "committed_upload wfh files =
     (if using_temp_file wfh
      then FromFile (temp_file_path wfh) (file_contents files (temp_file_path wfh))
      else FromMemory (write_buffer wfh))"

definition upload_bytes :: "upload \<Rightarrow> string" where
  "upload_bytes up = (case up of FromMemory b \<Rightarrow> b | FromFile name contents \<Rightarrow> contents)"

text \<open>
  What \<open>Write\<close> maintains: after the spill the memory buffer stays empty and the staging
  file exists; before it the memory buffer has not outgrown the threshold.
\<close>

definition handle_invariant :: "WebDAVFileHandle \<Rightarrow> local_files \<Rightarrow> bool" where
  "handle_invariant wfh files =
     (if using_temp_file wfh
      then write_buffer wfh = [] \<and> files (temp_file_path wfh) \<noteq> None
      else length (write_buffer wfh) \<le> streaming_threshold wfh)"

section \<open>Concrete scenarios\<close>

text \<open>
  A local environment in which \<open>mkstemp\<close> and \<open>fopen\<close> succeed, three servers (one that
  accepts everything with 201, one that refuses everything with 403, one that answers a
  PUT with 404 until the collection \<open>/d/\<close> has been created), and the handle that
  \<open>CreateHandle\<close> returns for \<open>webdavs://h/d/f\<close> opened for writing.
\<close>

definition test_env :: local_env where
  "test_env = \<lparr> mkstemp_name = Some ''/tmp/webdav_upload_a1B2c3'', fopen_fails = False \<rparr>"

definition accepting_server :: server where
  "accepting_server trace rq = \<lparr> status = 201, response_body = [] \<rparr>"

definition forbidden_server :: server where
  "forbidden_server trace rq = \<lparr> status = 403, response_body = [] \<rparr>"

definition parent_missing_server :: server where
  "parent_missing_server trace rq =
     (case rq of
        PUT url up \<Rightarrow>
          \<lparr> status = (if MKCOL ''https://h/d/'' \<in> set trace then 201 else 404), response_body = [] \<rparr>
      | MKCOL url \<Rightarrow> \<lparr> status = 201, response_body = [] \<rparr>
      | PROPFIND url depth \<Rightarrow> \<lparr> status = 207, response_body = [] \<rparr>)"

definition example_handle :: "nat \<Rightarrow> WebDAVFileHandle" where
  "example_handle mb =
     \<lparr> path = ''https://h/d/f'',
       flags = \<lparr>OpenForReading = False, OpenForWriting = True, OpenForAppending = False\<rparr>,
       auth_params = \<lparr>username = ''u'', password = ''p''\<rparr>,
       webdav_streaming_threshold_mb = mb, file_offset = 0,
       write_buffer = [], buffer_dirty = False, temp_file_path = [], using_temp_file = False \<rparr>"

definition after_write_and_sync :: "nat \<Rightarrow> handle_state" where
  "after_write_and_sync mb =
     snd (FileSync test_env accepting_server
            (snd (Write test_env (example_handle mb, Map.empty, []) ''abc'' 0)))"

lemmas run_defs = CreateDirectory.simps CreateDirectoryRecursive.simps ParseUrl_def StartsWith_def
  EndsWith_def split_host_path_def str_find_def GetHTTPUrl_def send_def created_def
  parent_to_create_def str_rfind_def protocol_prefix_of_def is_storage_error_def str_contains_def
  create_failed_message_def storage_full_message_def to_string.simps Let_def
  CreateHandle_def WebDAVFileHandle_ctor_def Write_def FlushBuffer_def FileSync_def Close_def
  first_upload_def retry_after_mkdir_def spill_to_temp_file_def streaming_threshold_def
  expected_location_def file_contents_def mkcol_url_def check_final_result_def
  test_env_def accepting_server_def forbidden_server_def parent_missing_server_def
  example_handle_def after_write_and_sync_def

lemmas parse_defs = collect_hrefs.simps ParsePropfindResponse_def href_at_def next_href_def find_from_def
  str_find_def EndsWith_def stoi_hex_def hex_digit_def isspace_def char_of_int_def Let_def



section \<open>Properties of the glob matcher\<close>

lemma Match_from_iff:
  "Match_from G key pattern = (\<exists>n < length key. Match G (drop n key) pattern)"
proof (induction key)
  case Nil
  then show ?case by simp
next
  case (Cons k key)
  have "(\<exists>n < length (k # key). Match G (drop n (k # key)) pattern)
        = (Match G (k # key) pattern \<or> (\<exists>n < length key. Match G (drop n key) pattern))"
    (is "?L = ?R")
  proof
    assume ?L
    then obtain n where n: "n < length (k # key)" "Match G (drop n (k # key)) pattern" by blast
    show ?R
    proof (cases n)
      case 0
      with n show ?thesis by simp
    next
      case (Suc m)
      with n show ?thesis by auto
    qed
  next
    assume ?R
    then show ?L
    proof
      assume "Match G (k # key) pattern"
      then have "0 < length (k # key) \<and> Match G (drop 0 (k # key)) pattern" by simp
      then show ?L by blast
    next
      assume "\<exists>n < length key. Match G (drop n key) pattern"
      then obtain n where "n < length key" "Match G (drop n key) pattern" by blast
      then have "Suc n < length (k # key) \<and> Match G (drop (Suc n) (k # key)) pattern" by simp
      then show ?L by blast
    qed
  qed
  with Cons show ?case by simp
qed

lemma Match_empty_key: "pattern \<noteq> [] \<Longrightarrow> \<not> Match G [] pattern"
  by simp

lemma Match_from_suffix:
  assumes "pattern \<noteq> []"
  shows "Match_from G key pattern = (\<exists>n \<le> length key. Match G (drop n key) pattern)"
proof -
  have "(\<exists>n \<le> length key. Match G (drop n key) pattern)
        = (\<exists>n < length key. Match G (drop n key) pattern)"
  proof
    assume "\<exists>n \<le> length key. Match G (drop n key) pattern"
    then obtain n where n: "n \<le> length key" "Match G (drop n key) pattern" by blast
    have "n \<noteq> length key"
    proof
      assume "n = length key"
      with n(2) have "Match G [] pattern" by simp
      with assms show False by simp
    qed
    with n(1) have "n < length key" by simp
    with n(2) show "\<exists>n < length key. Match G (drop n key) pattern" by blast
  next
    assume "\<exists>n < length key. Match G (drop n key) pattern"
    then obtain n where "n < length key" "Match G (drop n key) pattern" by blast
    then have "n \<le> length key \<and> Match G (drop n key) pattern" by simp
    then show "\<exists>n \<le> length key. Match G (drop n key) pattern" by blast
  qed
  then show ?thesis by (simp add: Match_from_iff)
qed

text \<open>
  C6 (as the code has it). For every single-segment matcher \<open>G\<close>: a \<open>**\<close> segment that is the
  last pattern segment matches every non-empty remaining path suffix, and does not match
  the empty one (the loop is not entered when the key is exhausted, and the final test
  finds the pattern not consumed); a \<open>**\<close> that is not last succeeds exactly when the rest
  of the pattern matches some remaining suffix of the path; a segment other than \<open>**\<close>
  must match exactly one path segment under \<open>G\<close>; an exhausted pattern matches only an
  exhausted path. With the wildcard matcher \<open>Glob_seg\<close>: \<open>a/*.csv\<close> matches \<open>a/x.csv\<close> and
  not \<open>a/b/x.csv\<close>, \<open>a/**/x.csv\<close> matches \<open>a/x.csv\<close> and \<open>a/b/c/x.csv\<close>, and \<open>**\<close> matches
  every path of at least one segment.
\<close>

theorem Match_glob_semantics:
  "Match G (k # ks) [''**'']
   \<and> \<not> Match G [] [''**'']
   \<and> (pattern \<noteq> [] \<longrightarrow>
        Match G key (''**'' # pattern) = (\<exists>n \<le> length key. Match G (drop n key) pattern))
   \<and> (p \<noteq> ''**'' \<longrightarrow>
        Match G key (p # pattern) = (\<exists>s rest. key = s # rest \<and> G s p \<and> Match G rest pattern))
   \<and> Match G key [] = (key = [])
   \<and> Match Glob_seg [''a'', ''x.csv''] [''a'', ''*.csv'']
   \<and> \<not> Match Glob_seg [''a'', ''b'', ''x.csv''] [''a'', ''*.csv'']
   \<and> Match Glob_seg [''a'', ''x.csv''] [''a'', ''**'', ''x.csv'']
   \<and> Match Glob_seg [''a'', ''b'', ''c'', ''x.csv''] [''a'', ''**'', ''x.csv'']"
proof -
  have star_last: "Match G (k # ks) [''**'']" by simp
  have star_empty: "\<not> Match G [] [''**'']" by simp
  have star_mid: "pattern \<noteq> [] \<longrightarrow>
        Match G key (''**'' # pattern) = (\<exists>n \<le> length key. Match G (drop n key) pattern)"
  proof
    assume ne: "pattern \<noteq> []"
    show "Match G key (''**'' # pattern) = (\<exists>n \<le> length key. Match G (drop n key) pattern)"
    proof (cases key)
      case Nil
      with ne show ?thesis by simp
    next
      case (Cons s rest)
      with ne show ?thesis using Match_from_suffix[OF ne, of G key] by simp
    qed
  qed
  have seg: "p \<noteq> ''**'' \<longrightarrow>
        Match G key (p # pattern) = (\<exists>s rest. key = s # rest \<and> G s p \<and> Match G rest pattern)"
    by (cases key) auto
  have done_pat: "Match G key [] = (key = [])"
    by (cases key) auto
  have e1: "Match Glob_seg [''a'', ''x.csv''] [''a'', ''*.csv'']" by simp
  have e2: "\<not> Match Glob_seg [''a'', ''b'', ''x.csv''] [''a'', ''*.csv'']" by simp
  have e3: "Match Glob_seg [''a'', ''x.csv''] [''a'', ''**'', ''x.csv'']" by simp
  have e4: "Match Glob_seg [''a'', ''b'', ''c'', ''x.csv''] [''a'', ''**'', ''x.csv'']" by simp
  from star_last star_empty star_mid seg done_pat e1 e2 e3 e4 show ?thesis by blast
qed

theorem Match_glob_semantics_witness:
  "[''x.csv''] \<noteq> [] \<and> ''a'' \<noteq> ''**''
   \<and> Match Glob_seg [''b'', ''x.csv''] [''**'', ''x.csv'']
   \<and> Match Glob_seg [''a'', ''x.csv''] [''a'', ''x.csv'']
   \<and> Match Glob_seg [''a'', ''b''] [''**'']"
  using Match_glob_semantics[of Glob_seg "''a''" "[''b'']" "[''x.csv'']" "[''b'', ''x.csv'']" "''a''"]
    Match_glob_semantics[of Glob_seg "''a''" "[''b'']" "[''x.csv'']" "[''a'', ''x.csv'']" "''a''"]
  by simp

text \<open>
  The claim as written lets a trailing \<open>**\<close> match the empty remaining suffix. The code
  does not: the path \<open>a\<close> does not match the pattern \<open>a/**\<close>.
\<close>

theorem Match_trailing_double_star_counterexample:
  "\<not> Match Glob_seg [''a''] [''a'', ''**'']"
  by simp

section \<open>Properties of the handle constructor\<close>

text \<open>
  C10 (as the code has it). Constructing a handle with flags that ask for both reading and
  writing, or for appending, fails with a \<open>NotImplementedException\<close>, and opening a file
  with such flags fails with it before \<open>Initialize\<close> runs, so that no request has been sent.
  Consequently a handle that was constructed is never open for both reading and writing
  and never for appending; when the flags ask for reading or for writing, it is open for
  exactly one of the two.
\<close>

theorem WebDAVFileHandle_ctor_flags:
  "(OpenForReading f \<and> OpenForWriting f \<longrightarrow>
      WebDAVFileHandle_ctor p f mb auth
        = Inl (NotImplementedException ''Cannot open a WebDAV file for both reading and writing''))
   \<and> (OpenForAppending f \<longrightarrow>
      (\<exists>msg. WebDAVFileHandle_ctor p f mb auth = Inl (NotImplementedException msg)))
   \<and> (((OpenForReading f \<and> OpenForWriting f) \<or> OpenForAppending f)
        \<and> ParseUrl file_path = Inr u \<longrightarrow>
      (\<exists>msg. OpenFileExtended initialize file_path f mb auth trace
               = (Inl (NotImplementedException msg), trace)))
   \<and> (WebDAVFileHandle_ctor p f mb auth = Inr h \<longrightarrow>
      flags h = f \<and> \<not> OpenForAppending f \<and> \<not> (OpenForReading f \<and> OpenForWriting f)
      \<and> (OpenForReading f \<or> OpenForWriting f \<longrightarrow>
           (OpenForReading (flags h) \<and> \<not> OpenForWriting (flags h))
           \<or> (OpenForWriting (flags h) \<and> \<not> OpenForReading (flags h))))"
  by (auto simp: WebDAVFileHandle_ctor_def OpenFileExtended_def CreateHandle_def)

text \<open>
  An \<open>Initialize\<close> that sends one request, to tell whether it ran.
\<close>

definition probing_initialize ::
  "WebDAVFileHandle \<Rightarrow> request list \<Rightarrow> (exception + WebDAVFileHandle) \<times> request list" where
  "probing_initialize handle trace = (Inr handle, trace @ [PROPFIND (path handle) 0])"

theorem WebDAVFileHandle_ctor_flags_witness:
  "WebDAVFileHandle_ctor ''https://h/f''
      \<lparr>OpenForReading = True, OpenForWriting = True, OpenForAppending = False\<rparr> 50
      \<lparr>username = ''u'', password = ''p''\<rparr>
     = Inl (NotImplementedException ''Cannot open a WebDAV file for both reading and writing'')
   \<and> (\<exists>msg. WebDAVFileHandle_ctor ''https://h/f''
      \<lparr>OpenForReading = False, OpenForWriting = True, OpenForAppending = True\<rparr> 50
      \<lparr>username = ''u'', password = ''p''\<rparr> = Inl (NotImplementedException msg))
   \<and> (\<exists>msg. OpenFileExtended probing_initialize ''webdavs://h/f''
      \<lparr>OpenForReading = True, OpenForWriting = True, OpenForAppending = False\<rparr> 50
      \<lparr>username = ''u'', password = ''p''\<rparr> [] = (Inl (NotImplementedException msg), []))
   \<and> (\<exists>h. WebDAVFileHandle_ctor ''https://h/f''
      \<lparr>OpenForReading = False, OpenForWriting = True, OpenForAppending = False\<rparr> 50
      \<lparr>username = ''u'', password = ''p''\<rparr> = Inr h
      \<and> OpenForWriting (flags h) \<and> \<not> OpenForReading (flags h))"
proof -
  let ?auth = "\<lparr>username = ''u'', password = ''p''\<rparr>"
  let ?rw = "\<lparr>OpenForReading = True, OpenForWriting = True, OpenForAppending = False\<rparr>"
  let ?wa = "\<lparr>OpenForReading = False, OpenForWriting = True, OpenForAppending = True\<rparr>"
  let ?w = "\<lparr>OpenForReading = False, OpenForWriting = True, OpenForAppending = False\<rparr>"
  have a: "WebDAVFileHandle_ctor ''https://h/f'' ?rw 50 ?auth
     = Inl (NotImplementedException ''Cannot open a WebDAV file for both reading and writing'')"
    using WebDAVFileHandle_ctor_flags[where f = ?rw and p = "''https://h/f''" and mb = 50
        and auth = ?auth] by simp
  have b: "\<exists>msg. WebDAVFileHandle_ctor ''https://h/f'' ?wa 50 ?auth
     = Inl (NotImplementedException msg)"
    using WebDAVFileHandle_ctor_flags[where f = ?wa and p = "''https://h/f''" and mb = 50
        and auth = ?auth] by simp
  have pu: "ParseUrl ''webdavs://h/f''
      = Inr \<lparr>http_proto = ''https'', host = ''h'', url_path = ''/f''\<rparr>"
    by (simp add: ParseUrl_def StartsWith_def split_host_path_def str_find_def)
  have o: "\<exists>msg. OpenFileExtended probing_initialize ''webdavs://h/f'' ?rw 50 ?auth []
      = (Inl (NotImplementedException msg), [])"
    using WebDAVFileHandle_ctor_flags[where f = ?rw and file_path = "''webdavs://h/f''"
        and mb = 50 and auth = ?auth and initialize = probing_initialize and trace = "[]"
        and u = "\<lparr>http_proto = ''https'', host = ''h'', url_path = ''/f''\<rparr>"] pu
    by simp
  obtain h where h: "WebDAVFileHandle_ctor ''https://h/f'' ?w 50 ?auth = Inr h"
    by (simp add: WebDAVFileHandle_ctor_def)
  have c: "OpenForWriting (flags h) \<and> \<not> OpenForReading (flags h)"
    using WebDAVFileHandle_ctor_flags[where f = ?w and p = "''https://h/f''" and mb = 50
        and auth = ?auth and h = h] h by simp
  from a b o h c show ?thesis by blast
qed

text \<open>
  The claim as written has every constructed handle open for exactly one of reading and
  writing. Flags that ask for neither are accepted: the handle is constructed, and opening
  goes on to \<open>Initialize\<close>.
\<close>

theorem WebDAVFileHandle_ctor_no_flag_counterexample:
  "WebDAVFileHandle_ctor ''https://h/f''
      \<lparr>OpenForReading = False, OpenForWriting = False, OpenForAppending = False\<rparr> 50
      \<lparr>username = ''u'', password = ''p''\<rparr>
     = Inr \<lparr> path = ''https://h/f'',
             flags = \<lparr>OpenForReading = False, OpenForWriting = False, OpenForAppending = False\<rparr>,
             auth_params = \<lparr>username = ''u'', password = ''p''\<rparr>,
             webdav_streaming_threshold_mb = 50, file_offset = 0,
             write_buffer = [], buffer_dirty = False, temp_file_path = [], using_temp_file = False \<rparr>
   \<and> snd (OpenFileExtended probing_initialize ''webdavs://h/f''
      \<lparr>OpenForReading = False, OpenForWriting = False, OpenForAppending = False\<rparr> 50
      \<lparr>username = ''u'', password = ''p''\<rparr> []) = [PROPFIND ''https://h/f'' 0]"
  by (simp add: WebDAVFileHandle_ctor_def OpenFileExtended_def CreateHandle_def ParseUrl_def
      StartsWith_def split_host_path_def str_find_def GetHTTPUrl_def probing_initialize_def)

section \<open>Properties of the request executor\<close>

declare ExecuteWithRetry_loop.simps [simp del]

lemma loop_last_attempt:
  "ExecuteWithRetry_loop exec m m res info =
     (case exec (executions info) of
        (r, code, received) \<Rightarrow>
          (Some r, info \<lparr> body := body info @ received, response_code := code,
                           executions := executions info + 1 \<rparr>))"
  by (subst ExecuteWithRetry_loop.simps) (simp add: Let_def split: prod.splits)

lemma loop_retry_step:
  assumes "attempt < m" "exec (executions info) = (r, code, received)"
    and "retryable (r, code, received)"
  shows "ExecuteWithRetry_loop exec m attempt res info =
     ExecuteWithRetry_loop exec m (attempt + 1) (Some r)
       (info \<lparr> body := body info @ received, response_code := code,
                executions := executions info + 1, body := [], response_code := 0,
                backoffs := backoffs info @ [attempt] \<rparr>)"
proof -
  from assms(3) have "(r \<noteq> CURLE_OK \<and> IsRetryableCurlError r) \<or> IsRetryableHTTPStatus code"
    by (simp add: retryable_def)
  then show ?thesis using assms(1,2)
    by (subst ExecuteWithRetry_loop.simps) (auto simp: Let_def)
qed

lemma loop_stop_step:
  assumes "attempt \<le> m" "exec (executions info) = (r, code, received)"
    and "\<not> retryable (r, code, received)"
  shows "ExecuteWithRetry_loop exec m attempt res info =
     (Some r, info \<lparr> body := body info @ received, response_code := code,
                      executions := executions info + 1 \<rparr>)"
proof -
  from assms(3) have "\<not> (r \<noteq> CURLE_OK \<and> IsRetryableCurlError r)" "\<not> IsRetryableHTTPStatus code"
    by (simp_all add: retryable_def)
  then show ?thesis using assms(1,2)
    by (subst ExecuteWithRetry_loop.simps) (auto simp: Let_def)
qed

text \<open>All outcomes retryable: the loop runs until \<open>attempt = max_retries\<close>.\<close>

lemma loop_all_retryable:
  "(\<forall>i. retryable (exec i)) \<Longrightarrow> attempt \<le> m \<Longrightarrow> k = nat (m - attempt) \<Longrightarrow>
     fst (ExecuteWithRetry_loop exec m attempt res info) = Some (fst (exec (executions info + k)))
     \<and> executions (snd (ExecuteWithRetry_loop exec m attempt res info)) = executions info + k + 1
     \<and> response_code (snd (ExecuteWithRetry_loop exec m attempt res info))
         = fst (snd (exec (executions info + k)))
     \<and> backoffs (snd (ExecuteWithRetry_loop exec m attempt res info))
         = backoffs info @ [attempt ..m - 1]"
proof (induction k arbitrary: attempt res info)
  case 0
  then have "attempt = m" by simp
  then show ?case by (simp add: loop_last_attempt split: prod.splits)
next
  case (Suc k)
  then have lt: "attempt < m" by simp
  obtain r code received where ex: "exec (executions info) = (r, code, received)"
    by (cases "exec (executions info)") auto
  have rt: "retryable (r, code, received)" using Suc.prems(1) ex by metis
  define info2 where "info2 = info \<lparr> body := body info @ received, response_code := code,
      executions := executions info + 1, body := [], response_code := 0,
      backoffs := backoffs info @ [attempt] \<rparr>"
  have step: "ExecuteWithRetry_loop exec m attempt res info
      = ExecuteWithRetry_loop exec m (attempt + 1) (Some r) info2"
    unfolding info2_def using lt ex rt by (rule loop_retry_step)
  have k: "k = nat (m - (attempt + 1))" using Suc.prems(3) by simp
  have le: "attempt + 1 \<le> m" using lt by simp
  note IH = Suc.IH[OF Suc.prems(1) le k, of "Some r" info2]
  have e2: "executions info2 = executions info + 1" by (simp add: info2_def)
  have b2: "backoffs info2 = backoffs info @ [attempt]" by (simp add: info2_def)
  have ups: "[attempt ..m - 1] = attempt # [attempt + 1 ..m - 1]"
    using lt by (simp add: upto_rec1)
  show ?case unfolding step using IH e2 b2 ups by simp
qed

text \<open>
  The first outcome that is not retryable ends the loop, provided the attempts before it
  did not exhaust the budget.
\<close>

lemma loop_first_stop:
  "(\<forall>i < j. retryable (exec (executions info + i))) \<Longrightarrow>
   \<not> retryable (exec (executions info + j)) \<Longrightarrow> attempt + int j \<le> m \<Longrightarrow>
     fst (ExecuteWithRetry_loop exec m attempt res info) = Some (fst (exec (executions info + j)))
     \<and> executions (snd (ExecuteWithRetry_loop exec m attempt res info)) = executions info + j + 1
     \<and> response_code (snd (ExecuteWithRetry_loop exec m attempt res info))
         = fst (snd (exec (executions info + j)))"
proof (induction j arbitrary: attempt res info)
  case 0
  obtain r code received where ex: "exec (executions info) = (r, code, received)"
    by (cases "exec (executions info)") auto
  from 0 ex have nr: "\<not> retryable (r, code, received)" by simp
  from 0 have le: "attempt \<le> m" by simp
  have "ExecuteWithRetry_loop exec m attempt res info =
     (Some r, info \<lparr> body := body info @ received, response_code := code,
                      executions := executions info + 1 \<rparr>)"
    using le ex nr by (rule loop_stop_step)
  then show ?case using ex by simp
next
  case (Suc j)
  obtain r code received where ex: "exec (executions info) = (r, code, received)"
    by (cases "exec (executions info)") auto
  have rt: "retryable (r, code, received)" using Suc.prems(1) ex by force
  from Suc.prems(3) have lt: "attempt < m" by simp
  define info2 where "info2 = info \<lparr> body := body info @ received, response_code := code,
      executions := executions info + 1, body := [], response_code := 0,
      backoffs := backoffs info @ [attempt] \<rparr>"
  have e2: "executions info2 = executions info + 1" by (simp add: info2_def)
  have step: "ExecuteWithRetry_loop exec m attempt res info
      = ExecuteWithRetry_loop exec m (attempt + 1) (Some r) info2"
    unfolding info2_def using lt ex rt by (rule loop_retry_step)
  have p1: "\<forall>i < j. retryable (exec (executions info2 + i))"
  proof (intro allI impI)
    fix i assume "i < j"
    then have "Suc i < Suc j" by simp
    with Suc.prems(1) have "retryable (exec (executions info + Suc i))" by blast
    then show "retryable (exec (executions info2 + i))" by (simp add: e2)
  qed
  have p2: "\<not> retryable (exec (executions info2 + j))" using Suc.prems(2) by (simp add: e2)
  have p3: "attempt + 1 + int j \<le> m" using Suc.prems(3) by simp
  note IH = Suc.IH[OF p1 p2 p3, of "Some r"]
  show ?case unfolding step using IH by (simp add: e2)
qed

lemma static_cast_int_in_range:
  "- 2147483648 \<le> v \<Longrightarrow> v < 2147483648 \<Longrightarrow> static_cast_int v = v"
  by (simp add: static_cast_int_def)

text \<open>
  C5 (as the code has it). The configured number is the maximum number of retries: the
  loop condition is \<open>attempt <= max_retries\<close>. For a setting within the range of \<open>int\<close>
  (\<open>0 \<le> webdav_max_retries < 2^31\<close>): when every outcome is retryable the executor performs
  exactly \<open>webdav_max_retries + 1\<close> executions (the first try and \<open>webdav_max_retries\<close>
  retries) and returns the last failing outcome as a value; configured to 3 it performs 4.
  An outcome that is a success or is terminal is returned at once: after \<open>j\<close> retryable
  outcomes (\<open>j \<le> webdav_max_retries\<close>) the executor stops with \<open>j + 1\<close> executions. The
  function is total and has no exceptional result.
\<close>

theorem ExecuteWithRetry_attempts:
  "((\<forall>i. retryable (exec i)) \<and> 0 \<le> webdav_max_retries \<and> webdav_max_retries < 2147483648 \<longrightarrow>
      fst (ExecuteWithRetry exec (HTTPFSCurlClient_ctor webdav_max_retries) fresh_request)
        = Some (fst (exec (nat webdav_max_retries)))
      \<and> executions (snd (ExecuteWithRetry exec (HTTPFSCurlClient_ctor webdav_max_retries)
                            fresh_request)) = nat webdav_max_retries + 1
      \<and> response_code (snd (ExecuteWithRetry exec (HTTPFSCurlClient_ctor webdav_max_retries)
                               fresh_request)) = fst (snd (exec (nat webdav_max_retries))))
   \<and> ((\<forall>i < j. retryable (exec i)) \<and> \<not> retryable (exec j) \<and> int j \<le> webdav_max_retries
       \<and> webdav_max_retries < 2147483648 \<longrightarrow>
      fst (ExecuteWithRetry exec (HTTPFSCurlClient_ctor webdav_max_retries) fresh_request)
        = Some (fst (exec j))
      \<and> executions (snd (ExecuteWithRetry exec (HTTPFSCurlClient_ctor webdav_max_retries)
                            fresh_request)) = j + 1
      \<and> response_code (snd (ExecuteWithRetry exec (HTTPFSCurlClient_ctor webdav_max_retries)
                               fresh_request)) = fst (snd (exec j)))
   \<and> fst (ExecuteWithRetry always_503 (HTTPFSCurlClient_ctor 3) fresh_request) = Some CURLE_OK
   \<and> response_code (snd (ExecuteWithRetry always_503 (HTTPFSCurlClient_ctor 3) fresh_request)) = 503
   \<and> executions (snd (ExecuteWithRetry always_503 (HTTPFSCurlClient_ctor 3) fresh_request)) = 4"
proof -
  let ?run = "ExecuteWithRetry exec (HTTPFSCurlClient_ctor webdav_max_retries) fresh_request"
  have conv: "0 \<le> webdav_max_retries \<Longrightarrow> webdav_max_retries < 2147483648 \<Longrightarrow>
      ?run = ExecuteWithRetry_loop exec webdav_max_retries 0 None fresh_request"
    by (simp add: ExecuteWithRetry_def HTTPFSCurlClient_ctor_def static_cast_int_in_range)
  have all: "(\<forall>i. retryable (exec i)) \<and> 0 \<le> webdav_max_retries
        \<and> webdav_max_retries < 2147483648 \<longrightarrow>
      fst ?run = Some (fst (exec (nat webdav_max_retries)))
      \<and> executions (snd ?run) = nat webdav_max_retries + 1
      \<and> response_code (snd ?run) = fst (snd (exec (nat webdav_max_retries)))"
    using loop_all_retryable[of exec 0 webdav_max_retries "nat webdav_max_retries" None
        fresh_request] conv
    by (simp add: fresh_request_def)
  have stop: "(\<forall>i < j. retryable (exec i)) \<and> \<not> retryable (exec j)
        \<and> int j \<le> webdav_max_retries \<and> webdav_max_retries < 2147483648 \<longrightarrow>
      fst ?run = Some (fst (exec j))
      \<and> executions (snd ?run) = j + 1
      \<and> response_code (snd ?run) = fst (snd (exec j))"
  proof (intro impI)
    assume a: "(\<forall>i < j. retryable (exec i)) \<and> \<not> retryable (exec j)
        \<and> int j \<le> webdav_max_retries \<and> webdav_max_retries < 2147483648"
    then have "0 \<le> webdav_max_retries" by simp
    with a have c: "?run = ExecuteWithRetry_loop exec webdav_max_retries 0 None fresh_request"
      using conv by simp
    show "fst ?run = Some (fst (exec j)) \<and> executions (snd ?run) = j + 1
      \<and> response_code (snd ?run) = fst (snd (exec j))"
      unfolding c
      using loop_first_stop[of j exec fresh_request 0 webdav_max_retries None] a
      by (simp add: fresh_request_def)
  qed
  have r503: "\<forall>i. retryable (always_503 i)"
    by (simp add: retryable_def always_503_def IsRetryableHTTPStatus_def)
  have v: "always_503 3 = (CURLE_OK, 503, [])" by (simp add: always_503_def)
  have c: "fst (ExecuteWithRetry always_503 (HTTPFSCurlClient_ctor 3) fresh_request) = Some CURLE_OK
     \<and> response_code (snd (ExecuteWithRetry always_503 (HTTPFSCurlClient_ctor 3) fresh_request)) = 503
     \<and> executions (snd (ExecuteWithRetry always_503 (HTTPFSCurlClient_ctor 3) fresh_request)) = 4"
    using loop_all_retryable[OF r503, of 0 3 3 None fresh_request] v
    by (simp add: ExecuteWithRetry_def HTTPFSCurlClient_ctor_def static_cast_int_def
        fresh_request_def)
  from all stop c show ?thesis by blast
qed

text \<open>
  Two retryable outcomes followed by a success, with three retries allowed: three
  executions, and the success is returned.
\<close>

definition fail_fail_ok :: "nat \<Rightarrow> outcome" where
  "fail_fail_ok n = (if n < 2 then (CURLE_COULDNT_CONNECT, 0, []) else (CURLE_OK, 201, []))"

theorem ExecuteWithRetry_attempts_witness:
  "executions (snd (ExecuteWithRetry always_503 (HTTPFSCurlClient_ctor 5) fresh_request)) = 6
   \<and> fst (ExecuteWithRetry fail_fail_ok (HTTPFSCurlClient_ctor 3) fresh_request) = Some CURLE_OK
   \<and> executions (snd (ExecuteWithRetry fail_fail_ok (HTTPFSCurlClient_ctor 3) fresh_request)) = 3
   \<and> response_code (snd (ExecuteWithRetry fail_fail_ok (HTTPFSCurlClient_ctor 3) fresh_request))
       = 201"
proof -
  have r503: "\<forall>i. retryable (always_503 i)"
    by (simp add: retryable_def always_503_def IsRetryableHTTPStatus_def)
  have a: "executions (snd (ExecuteWithRetry always_503 (HTTPFSCurlClient_ctor 5) fresh_request))
      = 6"
    using ExecuteWithRetry_attempts[of always_503 5 0] r503 by simp
  have pre: "(\<forall>i < 2. retryable (fail_fail_ok i)) \<and> \<not> retryable (fail_fail_ok 2) \<and> int 2 \<le> 3"
    by (simp add: retryable_def fail_fail_ok_def IsRetryableHTTPStatus_def)
  have b: "fst (ExecuteWithRetry fail_fail_ok (HTTPFSCurlClient_ctor 3) fresh_request) = Some CURLE_OK
   \<and> executions (snd (ExecuteWithRetry fail_fail_ok (HTTPFSCurlClient_ctor 3) fresh_request)) = 3
   \<and> response_code (snd (ExecuteWithRetry fail_fail_ok (HTTPFSCurlClient_ctor 3) fresh_request))
       = 201"
    using ExecuteWithRetry_attempts[of fail_fail_ok 3 2] pre by (simp add: fail_fail_ok_def)
  from a b show ?thesis by blast
qed

text \<open>
  The claim as written has three attempts in total for the configured value 3. With
  \<open>webdav_max_retries = 3\<close> and every outcome retryable the code executes the request
  more than three times.
\<close>

theorem ExecuteWithRetry_three_counterexample:
  "executions (snd (ExecuteWithRetry always_503 (HTTPFSCurlClient_ctor 3) fresh_request)) \<noteq> 3"
  by (simp add: ExecuteWithRetry_def HTTPFSCurlClient_ctor_def static_cast_int_def
      ExecuteWithRetry_loop.simps fresh_request_def
      always_503_def IsRetryableHTTPStatus_def Let_def)

text \<open>
  A setting beyond the range of \<open>int\<close>: \<open>2^32\<close> is converted to 0 retries, and the request
  is executed once.
\<close>

lemma ExecuteWithRetry_setting_beyond_int:
  "executions (snd (ExecuteWithRetry always_503 (HTTPFSCurlClient_ctor 4294967296) fresh_request)) = 1"
  by (simp add: ExecuteWithRetry_def HTTPFSCurlClient_ctor_def static_cast_int_def
      ExecuteWithRetry_loop.simps fresh_request_def
      always_503_def IsRetryableHTTPStatus_def Let_def)

section \<open>Properties of directory creation\<close>

lemma check_final_result_trace [simp]: "snd (check_final_result directory resp trace) = trace"
  by (simp add: check_final_result_def)

lemma mkdir_trace_extends:
  "\<exists>more. snd (CreateDirectory srv directory trace) = trace @ more"
  "\<exists>more. snd (CreateDirectoryRecursive srv directory trace) = trace @ more"
  "\<exists>more. snd (create_levels srv pre acc parts trace) = trace @ more"
proof (induction srv directory trace and srv directory trace and srv pre acc parts trace
    rule: CreateDirectory_CreateDirectoryRecursive_create_levels.induct)
  case (1 srv directory trace)
  show ?case
  proof (cases "ParseUrl directory")
    case (Inl e)
    then show ?thesis by (subst CreateDirectory.simps) simp
  next
    case (Inr parsed_url)
    define resp where "resp = srv trace (MKCOL (mkcol_url parsed_url))"
    define trace1 where "trace1 = trace @ [MKCOL (mkcol_url parsed_url)]"
    have snd1: "send srv (MKCOL (mkcol_url parsed_url)) trace = (resp, trace1)"
      by (simp add: send_def resp_def trace1_def)
    show ?thesis
    proof (cases "created (status resp) \<or> status resp = 507")
      case True
      then show ?thesis using Inr snd1
        by (subst CreateDirectory.simps) (auto simp: trace1_def)
    next
      case False
      note nf = this
      show ?thesis
      proof (cases "if status resp = 404 \<or> status resp = 409
                        then parent_to_create directory else None")
        case None
        have "snd (CreateDirectory srv directory trace) = trace1"
          using Inr snd1 nf None by (subst CreateDirectory.simps) simp
        then show ?thesis by (simp add: trace1_def)
      next
        case (Some parent_dir)
        from nf have c1: "\<not> created (status resp)" and c2: "status resp \<noteq> 507" by simp_all
        from "1.IH"[OF Inr snd1[symmetric] c1 c2 Some]
        obtain more where m: "snd (CreateDirectoryRecursive srv parent_dir trace1) = trace1 @ more"
          by blast
        obtain r2 trace2 where r2: "CreateDirectoryRecursive srv parent_dir trace1 = (r2, trace2)"
          by (cases "CreateDirectoryRecursive srv parent_dir trace1") auto
        with m have t2: "trace2 = trace1 @ more" by simp
        show ?thesis
        proof (cases r2)
          case (Inl e)
          have "snd (CreateDirectory srv directory trace) = trace2"
            using Inr snd1 nf Some r2 Inl by (subst CreateDirectory.simps) simp
          then show ?thesis by (simp add: t2 trace1_def)
        next
          case (Inr u)
          have "snd (CreateDirectory srv directory trace) = trace2 @ [MKCOL (mkcol_url parsed_url)]"
            using \<open>ParseUrl directory = Inr parsed_url\<close> snd1 nf Some r2 Inr
            by (subst CreateDirectory.simps) (simp add: send_def)
          then show ?thesis by (simp add: t2 trace1_def)
        qed
      qed
    qed
  qed
next
  case (2 srv directory trace)
  show ?case
  proof (cases "ParseUrl directory")
    case (Inl e)
    then show ?thesis by (subst CreateDirectoryRecursive.simps) simp
  next
    case (Inr parsed_url)
    from "2.IH"[OF Inr] show ?thesis using Inr
      by (subst CreateDirectoryRecursive.simps) simp
  qed
next
  case (3 srv protocol_prefix accumulated_path trace)
  then show ?case by simp
next
  case (4 srv protocol_prefix accumulated_path part parts trace)
  let ?acc = "accumulated_path @ CHR ''/'' # part"
  let ?full = "protocol_prefix @ ?acc"
  have a: "?acc = accumulated_path @ ''/'' @ part" by simp
  have f: "?full = protocol_prefix @ ?acc" by simp
  obtain r trace1 where r: "CreateDirectory srv ?full trace = (r, trace1)"
    by (cases "CreateDirectory srv ?full trace") auto
  from "4.IH"(1)[OF a f] r
  obtain more where t1: "trace1 = trace @ more" by auto
  have cont: "\<exists>more'. snd (create_levels srv protocol_prefix ?acc parts trace1) = trace @ more'"
    if "r = Inr () \<or> (\<exists>m. r = Inl (IOException m) \<and> \<not> is_storage_error m)"
  proof -
    from that have "\<exists>more2. snd (create_levels srv protocol_prefix ?acc parts trace1) = trace1 @ more2"
    proof
      assume x: "r = Inr ()"
      from "4.IH"(3)[OF a f r[symmetric] x] show ?thesis .
    next
      assume "\<exists>m. r = Inl (IOException m) \<and> \<not> is_storage_error m"
      then obtain m where m: "r = Inl (IOException m)" "\<not> is_storage_error m" by blast
      from "4.IH"(2)[OF a f r[symmetric] m(1) refl m(2)] show ?thesis .
    qed
    then show ?thesis using t1 by auto
  qed
  show ?case
  proof (cases r)
    case (Inr u)
    then have "r = Inr ()" by simp
    with cont have "\<exists>more'. snd (create_levels srv protocol_prefix ?acc parts trace1) = trace @ more'"
      by blast
    then show ?thesis using r Inr by (simp add: Let_def)
  next
    case (Inl e)
    show ?thesis
    proof (cases e)
      case (IOException m)
      show ?thesis
      proof (cases "is_storage_error m")
        case True
        then show ?thesis using r Inl IOException t1 by (simp add: Let_def)
      next
        case False
        with cont Inl IOException
        have "\<exists>more'. snd (create_levels srv protocol_prefix ?acc parts trace1) = trace @ more'"
          by blast
        then show ?thesis using r Inl IOException False by (simp add: Let_def)
      qed
    qed (use r Inl t1 in \<open>simp_all add: Let_def\<close>)
  qed
qed

text \<open>
  What a single \<open>CreateDirectory\<close> makes of the first MKCOL response: 201, 200 and 204
  are success, 405 is success as well, 507 is the storage-full error.
\<close>

lemma CreateDirectory_first_status:
  assumes "ParseUrl directory = Inr u"
  shows "created (status (srv trace (MKCOL (mkcol_url u)))) \<or> status (srv trace (MKCOL (mkcol_url u))) = 405
           \<Longrightarrow> CreateDirectory srv directory trace = (Inr (), trace @ [MKCOL (mkcol_url u)])"
    and "status (srv trace (MKCOL (mkcol_url u))) = 507
           \<Longrightarrow> CreateDirectory srv directory trace
               = (Inl (IOException (storage_full_message directory)), trace @ [MKCOL (mkcol_url u)])"
  using assms
  by (subst CreateDirectory.simps, auto simp: send_def created_def check_final_result_def)+

text \<open>
  C9 (the code at an input where it departs from the claim). The handler of
  \<open>CreateDirectoryRecursive\<close> recognises a quota error by searching the text of the
  exception for \<open>Storage is full\<close> or \<open>insufficient storage\<close>, and that text contains the
  name of the directory. With a server that refuses every MKCOL with 403, creating
  \<open>webdav://h/Storage is full/x\<close> stops at the first level and re-raises the 403 error; the
  second level is never attempted. For \<open>webdav://h/a/x\<close> the same errors are swallowed and
  both levels are attempted.
\<close>

theorem CreateDirectoryRecursive_rethrows_by_message:
  "CreateDirectoryRecursive forbidden_server ''webdav://h/Storage is full/x'' []
     = (Inl (IOException ''Failed to create directory webdav://h/Storage is full: HTTP 403''),
        [MKCOL ''http://h/Storage is full/''])
   \<and> CreateDirectoryRecursive forbidden_server ''webdav://h/a/x'' []
     = (Inr (), [MKCOL ''http://h/a/'', MKCOL ''http://h/a/x/''])"
  by (simp add: run_defs)

section \<open>Properties of the write buffer and the commit\<close>

lemma retry_trace_extends:
  "\<exists>more. snd (retry_after_mkdir srv http_url wfh resp trace) = trace @ more"
proof (cases "status resp = 400 \<or> status resp = 404 \<or> status resp = 409")
  case False
  then show ?thesis by (simp add: retry_after_mkdir_def)
next
  case True
  show ?thesis
  proof (cases "str_rfind (path wfh) CHR ''/''")
    case None
    with True show ?thesis by (simp add: retry_after_mkdir_def)
  next
    case (Some last_slash)
    obtain r trace1 where r: "CreateDirectoryRecursive srv (take last_slash (path wfh)) trace = (r, trace1)"
      by (cases "CreateDirectoryRecursive srv (take last_slash (path wfh)) trace") auto
    with mkdir_trace_extends(2)[of srv "take last_slash (path wfh)" trace]
    obtain more where "trace1 = trace @ more" by auto
    with True Some r show ?thesis
      by (cases r) (simp_all add: retry_after_mkdir_def send_def)
  qed
qed

lemma Write_accepted:
  assumes env: "mkstemp_name env = Some tmp" "\<not> fopen_fails env"
    and loc: "location = expected_location wfh"
    and inv: "handle_invariant wfh files"
  shows "\<exists>wfh' files'.
      Write env (wfh, files, trace) buffer location = (Inr (), wfh', files', trace)
    \<and> using_temp_file wfh'
        = (using_temp_file wfh \<or> length (write_buffer wfh) + length buffer > streaming_threshold wfh)
    \<and> buffered_content wfh' files' = buffered_content wfh files @ buffer
    \<and> file_offset wfh' = file_offset wfh + length buffer
    \<and> buffer_dirty wfh'
    \<and> handle_invariant wfh' files'
    \<and> path wfh' = path wfh
    \<and> streaming_threshold wfh' = streaming_threshold wfh
    \<and> temp_file_path wfh' = (if using_temp_file wfh then temp_file_path wfh
                               else if using_temp_file wfh' then tmp else temp_file_path wfh)"
proof (cases "using_temp_file wfh")
  case True
  with env loc inv show ?thesis
    by (simp add: Write_def handle_invariant_def buffered_content_def file_contents_def
        streaming_threshold_def split: option.splits)
next
  case False
  note mem = this
  show ?thesis
  proof (cases "length (write_buffer wfh) + length buffer > streaming_threshold wfh")
    case True
    with mem env loc inv show ?thesis
      by (simp add: Write_def handle_invariant_def buffered_content_def file_contents_def
          streaming_threshold_def spill_to_temp_file_def Let_def)
  next
    case False
    with mem env loc inv show ?thesis
      by (simp add: Write_def handle_invariant_def buffered_content_def file_contents_def
          streaming_threshold_def)
  qed
qed

lemma Write_rejected:
  "location \<noteq> expected_location wfh \<Longrightarrow>
     \<exists>m. Write env (wfh, files, trace) buffer location = (Inl (IOException m), wfh, files, trace)"
  by (simp add: Write_def)

lemma write_sequence_accepted:
  assumes env: "mkstemp_name env = Some tmp" "\<not> fopen_fails env"
  shows "handle_invariant wfh files \<Longrightarrow> file_offset wfh = length (buffered_content wfh files) \<Longrightarrow>
     offset = length (buffered_content wfh files) \<Longrightarrow>
     \<exists>wfh' files'.
        write_sequence env (wfh, files, trace) offset ws = (Inr (), wfh', files', trace)
      \<and> handle_invariant wfh' files'
      \<and> file_offset wfh' = length (buffered_content wfh' files')
      \<and> buffered_content wfh' files' = buffered_content wfh files @ concat ws
      \<and> using_temp_file wfh'
          = (using_temp_file wfh
             \<or> length (buffered_content wfh files @ concat ws) > streaming_threshold wfh)
      \<and> path wfh' = path wfh
      \<and> streaming_threshold wfh' = streaming_threshold wfh
      \<and> (ws \<noteq> [] \<longrightarrow> buffer_dirty wfh')
      \<and> (ws = [] \<longrightarrow> wfh' = wfh \<and> files' = files)
      \<and> temp_file_path wfh' = (if using_temp_file wfh then temp_file_path wfh
                                 else if using_temp_file wfh' then tmp else temp_file_path wfh)"
proof (induction ws arbitrary: wfh files offset)
  case Nil
  then show ?case by (auto simp: handle_invariant_def buffered_content_def)
next
  case (Cons buffer rest)
  have loc: "offset = expected_location wfh"
    using Cons.prems by (simp add: expected_location_def buffered_content_def handle_invariant_def)
  from Write_accepted[OF env loc Cons.prems(1), of trace buffer]
  obtain wfh1 files1 where
    w: "Write env (wfh, files, trace) buffer offset = (Inr (), wfh1, files1, trace)"
    and u1: "using_temp_file wfh1
        = (using_temp_file wfh \<or> length (write_buffer wfh) + length buffer > streaming_threshold wfh)"
    and c1: "buffered_content wfh1 files1 = buffered_content wfh files @ buffer"
    and o1: "file_offset wfh1 = file_offset wfh + length buffer"
    and d1: "buffer_dirty wfh1"
    and i1: "handle_invariant wfh1 files1"
    and p1: "path wfh1 = path wfh"
    and s1: "streaming_threshold wfh1 = streaming_threshold wfh"
    and t1: "temp_file_path wfh1 = (if using_temp_file wfh then temp_file_path wfh
                               else if using_temp_file wfh1 then tmp else temp_file_path wfh)"
    by blast
  have off1: "file_offset wfh1 = length (buffered_content wfh1 files1)"
    using o1 c1 Cons.prems(2) by simp
  have off2: "offset + length buffer = length (buffered_content wfh1 files1)"
    using c1 Cons.prems(3) by simp
  from Cons.IH[OF i1 off1 off2]
  obtain wfh' files' where
    r: "write_sequence env (wfh1, files1, trace) (offset + length buffer) rest = (Inr (), wfh', files', trace)"
    and i: "handle_invariant wfh' files'"
    and o: "file_offset wfh' = length (buffered_content wfh' files')"
    and c: "buffered_content wfh' files' = buffered_content wfh1 files1 @ concat rest"
    and u: "using_temp_file wfh'
          = (using_temp_file wfh1
             \<or> length (buffered_content wfh1 files1 @ concat rest) > streaming_threshold wfh1)"
    and p: "path wfh' = path wfh1"
    and s: "streaming_threshold wfh' = streaming_threshold wfh1"
    and d: "rest \<noteq> [] \<longrightarrow> buffer_dirty wfh'"
    and e: "rest = [] \<longrightarrow> wfh' = wfh1 \<and> files' = files1"
    and t: "temp_file_path wfh' = (if using_temp_file wfh1 then temp_file_path wfh1
                                 else if using_temp_file wfh' then tmp else temp_file_path wfh1)"
    by blast
  have mem_len: "\<not> using_temp_file wfh \<Longrightarrow> buffered_content wfh files = write_buffer wfh"
    by (simp add: buffered_content_def)
  have uu: "using_temp_file wfh'
          = (using_temp_file wfh
             \<or> length (buffered_content wfh files @ concat (buffer # rest)) > streaming_threshold wfh)"
  proof (cases "using_temp_file wfh")
    case True
    with u u1 show ?thesis by simp
  next
    case False
    then have "buffered_content wfh files = write_buffer wfh" by (simp add: buffered_content_def)
    with False u u1 c1 s1 show ?thesis by auto
  qed
  have dd: "buffer_dirty wfh'" using d e d1 by (cases "rest = []") auto
  have tt: "temp_file_path wfh' = (if using_temp_file wfh then temp_file_path wfh
                                 else if using_temp_file wfh' then tmp else temp_file_path wfh)"
    using t t1 u u1 by (auto split: if_splits)
  have ws: "write_sequence env (wfh, files, trace) offset (buffer # rest) = (Inr (), wfh', files', trace)"
    using w r by simp
  from ws i o c c1 uu p p1 s s1 dd tt show ?case by simp
qed


lemma first_upload_put:
  assumes "\<not> fopen_fails env" "handle_invariant wfh files"
  shows "first_upload env srv url (wfh, files, trace)
     = (Inr (srv trace (PUT url (committed_upload wfh files))), wfh, files,
        trace @ [PUT url (committed_upload wfh files)])"
proof (cases "using_temp_file wfh")
  case True
  with assms(2) obtain contents where c: "files (temp_file_path wfh) = Some contents"
    and b: "write_buffer wfh = []"
    by (auto simp: handle_invariant_def)
  with True assms(1) show ?thesis
    by (simp add: first_upload_def committed_upload_def file_contents_def send_def)
next
  case False
  then show ?thesis
    by (simp add: first_upload_def committed_upload_def send_def)
qed

lemma FlushBuffer_commit:
  assumes nf: "\<not> fopen_fails env" and inv: "handle_invariant wfh files"
    and url: "ParseUrl (path wfh) = Inr u"
    and dirty: "buffer_dirty wfh \<or> using_temp_file wfh"
  shows "\<exists>r more. FlushBuffer env srv (wfh, files, trace)
     = (r, (if r = Inr () then wfh \<lparr> write_buffer := [], buffer_dirty := False \<rparr> else wfh), files,
        trace @ PUT (GetHTTPUrl u) (committed_upload wfh files) # more)"
proof -
  let ?put = "PUT (GetHTTPUrl u) (committed_upload wfh files)"
  let ?resp = "srv trace ?put"
  obtain resp2 trace2 where
    rt: "retry_after_mkdir srv (GetHTTPUrl u) wfh ?resp (trace @ [?put]) = (resp2, trace2)"
    by (cases "retry_after_mkdir srv (GetHTTPUrl u) wfh ?resp (trace @ [?put])") auto
  with retry_trace_extends[of srv "GetHTTPUrl u" wfh ?resp "trace @ [?put]"]
  obtain more where t2: "trace2 = trace @ ?put # more" by auto
  show ?thesis
  proof (cases "status resp2 \<noteq> 200 \<and> status resp2 \<noteq> 201 \<and> status resp2 \<noteq> 204")
    case True
    then show ?thesis using dirty url rt t2 first_upload_put[OF nf inv, of srv "GetHTTPUrl u" trace]
      by (auto simp: FlushBuffer_def)
  next
    case False
    then show ?thesis using dirty url rt t2 first_upload_put[OF nf inv, of srv "GetHTTPUrl u" trace]
      by (auto simp: FlushBuffer_def)
  qed
qed

lemma FlushBuffer_accepted:
  assumes nf: "\<not> fopen_fails env" and inv: "handle_invariant wfh files"
    and url: "ParseUrl (path wfh) = Inr u"
    and dirty: "buffer_dirty wfh \<or> using_temp_file wfh"
    and ok: "status (srv trace (PUT (GetHTTPUrl u) (committed_upload wfh files))) \<in> {200, 201, 204}"
  shows "FlushBuffer env srv (wfh, files, trace)
     = (Inr (), wfh \<lparr> write_buffer := [], buffer_dirty := False \<rparr>, files,
        trace @ [PUT (GetHTTPUrl u) (committed_upload wfh files)])"
proof -
  let ?put = "PUT (GetHTTPUrl u) (committed_upload wfh files)"
  from ok have "retry_after_mkdir srv (GetHTTPUrl u) wfh (srv trace ?put) (trace @ [?put])
      = (srv trace ?put, trace @ [?put])"
    by (auto simp: retry_after_mkdir_def)
  then show ?thesis using dirty url ok first_upload_put[OF nf inv, of srv "GetHTTPUrl u" trace]
    by (auto simp: FlushBuffer_def)
qed

lemma FlushBuffer_clean:
  "\<not> buffer_dirty wfh \<Longrightarrow> \<not> using_temp_file wfh \<Longrightarrow>
     FlushBuffer env srv (wfh, files, trace) = (Inr (), wfh, files, trace)"
  by (simp add: FlushBuffer_def)

lemma ctor_fresh:
  assumes "WebDAVFileHandle_ctor p f mb auth = Inr wfh"
  shows "path wfh = p \<and> write_buffer wfh = [] \<and> \<not> using_temp_file wfh \<and> \<not> buffer_dirty wfh
     \<and> file_offset wfh = 0 \<and> webdav_streaming_threshold_mb wfh = mb"
  using assms by (auto simp: WebDAVFileHandle_ctor_def split: if_splits)

lemma CreateHandle_example:
  "CreateHandle ''webdavs://h/d/f''
     \<lparr>OpenForReading = False, OpenForWriting = True, OpenForAppending = False\<rparr> mb
     \<lparr>username = ''u'', password = ''p''\<rparr> = Inr (example_handle mb)"
  by (simp add: run_defs)

text \<open>
  The first upload of a commit. From a freshly constructed handle, every run of \<open>Write\<close>
  calls whose offsets are the running totals is accepted; the handle has spilled exactly if the total exceeds the
  threshold; the commit that follows starts with one PUT whose body is the concatenation
  of all written buffers, taken from memory when the handle has not spilled and streamed
  from the staging file when it has, and when the server accepts that PUT it is the only
  request. With no write at all the commit sends nothing. A single accepted \<open>Write\<close> on a
  handle still in memory spills exactly if buffered size plus incoming size exceeds the
  threshold.
\<close>

theorem write_commit_uploads_concatenation:
  assumes h: "WebDAVFileHandle_ctor p f mb auth = Inr wfh"
    and url: "ParseUrl p = Inr u"
    and env: "mkstemp_name env = Some tmp" "\<not> fopen_fails env"
  shows "(\<exists>wfh' files'.
      write_sequence env (wfh, files, trace) 0 ws = (Inr (), wfh', files', trace)
    \<and> using_temp_file wfh' = (streaming_threshold wfh < length (concat ws))
    \<and> committed_upload wfh' files'
        = (if streaming_threshold wfh < length (concat ws) then FromFile tmp (concat ws)
           else FromMemory (concat ws))
    \<and> (ws = [] \<longrightarrow> FlushBuffer env srv (wfh', files', trace) = (Inr (), wfh', files', trace))
    \<and> (ws \<noteq> [] \<longrightarrow>
         (\<exists>r wfh'' files'' more. FlushBuffer env srv (wfh', files', trace)
            = (r, wfh'', files'', trace @ PUT (GetHTTPUrl u) (committed_upload wfh' files') # more)))
    \<and> (ws \<noteq> [] \<and> status (srv trace (PUT (GetHTTPUrl u) (committed_upload wfh' files'))) \<in> {200, 201, 204}
         \<longrightarrow> snd (snd (snd (FlushBuffer env srv (wfh', files', trace))))
            = trace @ [PUT (GetHTTPUrl u) (committed_upload wfh' files')]))
    \<and> (handle_invariant wfh0 files0 \<and> \<not> using_temp_file wfh0 \<longrightarrow>
         using_temp_file
           (fst (snd (Write env (wfh0, files0, trace0) buffer (expected_location wfh0))))
         = (streaming_threshold wfh0 < length (write_buffer wfh0) + length buffer))"
proof -
  from ctor_fresh[OF h] have fr: "path wfh = p" "write_buffer wfh = []" "\<not> using_temp_file wfh"
    "\<not> buffer_dirty wfh" "file_offset wfh = 0" by simp_all
  have inv0: "handle_invariant wfh files" using fr by (simp add: handle_invariant_def)
  have c0: "buffered_content wfh files = []" using fr by (simp add: buffered_content_def)
  from write_sequence_accepted[OF env inv0, of 0 trace ws] fr c0
  obtain wfh' files' where
    r: "write_sequence env (wfh, files, trace) 0 ws = (Inr (), wfh', files', trace)"
    and i: "handle_invariant wfh' files'"
    and c: "buffered_content wfh' files' = concat ws"
    and us: "using_temp_file wfh' = (length (concat ws) > streaming_threshold wfh)"
    and p: "path wfh' = path wfh"
    and d: "ws \<noteq> [] \<longrightarrow> buffer_dirty wfh'"
    and e: "ws = [] \<longrightarrow> wfh' = wfh \<and> files' = files"
    and t: "temp_file_path wfh' = (if using_temp_file wfh then temp_file_path wfh
                                 else if using_temp_file wfh' then tmp else temp_file_path wfh)"
    by auto
  have up: "committed_upload wfh' files'
        = (if streaming_threshold wfh < length (concat ws) then FromFile tmp (concat ws)
           else FromMemory (concat ws))"
  proof (cases "using_temp_file wfh'")
    case True
    with i have "write_buffer wfh' = []" by (simp add: handle_invariant_def)
    with True c have "file_contents files' (temp_file_path wfh') = concat ws"
      by (simp add: buffered_content_def)
    moreover from True t fr have "temp_file_path wfh' = tmp" by simp
    ultimately show ?thesis using True us by (simp add: committed_upload_def)
  next
    case False
    with c us show ?thesis by (simp add: committed_upload_def buffered_content_def)
  qed
  have url': "ParseUrl (path wfh') = Inr u" using p fr url by simp
  have clean: "ws = [] \<longrightarrow> FlushBuffer env srv (wfh', files', trace) = (Inr (), wfh', files', trace)"
    using e fr by (auto simp: FlushBuffer_clean)
  have put: "ws \<noteq> [] \<longrightarrow>
         (\<exists>r wfh'' files'' more. FlushBuffer env srv (wfh', files', trace)
            = (r, wfh'', files'', trace @ PUT (GetHTTPUrl u) (committed_upload wfh' files') # more))"
  proof
    assume "ws \<noteq> []"
    with d have "buffer_dirty wfh' \<or> using_temp_file wfh'" by simp
    from FlushBuffer_commit[OF env(2) i url' this, of srv trace] show
      "\<exists>r wfh'' files'' more. FlushBuffer env srv (wfh', files', trace)
            = (r, wfh'', files'', trace @ PUT (GetHTTPUrl u) (committed_upload wfh' files') # more)"
      by blast
  qed
  have once: "ws \<noteq> [] \<and> status (srv trace (PUT (GetHTTPUrl u) (committed_upload wfh' files'))) \<in> {200, 201, 204}
         \<longrightarrow> snd (snd (snd (FlushBuffer env srv (wfh', files', trace))))
            = trace @ [PUT (GetHTTPUrl u) (committed_upload wfh' files')]"
  proof
    assume a: "ws \<noteq> [] \<and> status (srv trace (PUT (GetHTTPUrl u) (committed_upload wfh' files'))) \<in> {200, 201, 204}"
    with d have dd: "buffer_dirty wfh' \<or> using_temp_file wfh'" by simp
    from a have ok: "status (srv trace (PUT (GetHTTPUrl u) (committed_upload wfh' files'))) \<in> {200, 201, 204}"
      by simp
    show "snd (snd (snd (FlushBuffer env srv (wfh', files', trace))))
            = trace @ [PUT (GetHTTPUrl u) (committed_upload wfh' files')]"
      using FlushBuffer_accepted[of env wfh' files' u srv trace] env(2) i url' dd ok by simp
  qed
  have step: "handle_invariant wfh0 files0 \<and> \<not> using_temp_file wfh0 \<longrightarrow>
         using_temp_file
           (fst (snd (Write env (wfh0, files0, trace0) buffer (expected_location wfh0))))
         = (streaming_threshold wfh0 < length (write_buffer wfh0) + length buffer)"
  proof
    assume a: "handle_invariant wfh0 files0 \<and> \<not> using_temp_file wfh0"
    then have inv: "handle_invariant wfh0 files0" by simp
    from Write_accepted[OF env refl inv, of trace0 buffer] a
    show "using_temp_file
           (fst (snd (Write env (wfh0, files0, trace0) buffer (expected_location wfh0))))
         = (streaming_threshold wfh0 < length (write_buffer wfh0) + length buffer)"
      by auto
  qed
  from r us up clean put once have
    "\<exists>wfh' files'.
      write_sequence env (wfh, files, trace) 0 ws = (Inr (), wfh', files', trace)
    \<and> using_temp_file wfh' = (streaming_threshold wfh < length (concat ws))
    \<and> committed_upload wfh' files'
        = (if streaming_threshold wfh < length (concat ws) then FromFile tmp (concat ws)
           else FromMemory (concat ws))
    \<and> (ws = [] \<longrightarrow> FlushBuffer env srv (wfh', files', trace) = (Inr (), wfh', files', trace))
    \<and> (ws \<noteq> [] \<longrightarrow>
         (\<exists>r wfh'' files'' more. FlushBuffer env srv (wfh', files', trace)
            = (r, wfh'', files'', trace @ PUT (GetHTTPUrl u) (committed_upload wfh' files') # more)))
    \<and> (ws \<noteq> [] \<and> status (srv trace (PUT (GetHTTPUrl u) (committed_upload wfh' files'))) \<in> {200, 201, 204}
         \<longrightarrow> snd (snd (snd (FlushBuffer env srv (wfh', files', trace))))
            = trace @ [PUT (GetHTTPUrl u) (committed_upload wfh' files')])"
    by blast
  with step show ?thesis by blast
qed

theorem write_commit_uploads_concatenation_witness:
  "\<exists>wfh' files'.
      write_sequence test_env (example_handle 0, Map.empty, []) 0 [''abc'', ''de'']
        = (Inr (), wfh', files', [])
    \<and> using_temp_file wfh'
    \<and> committed_upload wfh' files' = FromFile ''/tmp/webdav_upload_a1B2c3'' ''abcde''
    \<and> snd (snd (snd (FlushBuffer test_env accepting_server (wfh', files', []))))
        = [PUT ''https://h/d/f'' (FromFile ''/tmp/webdav_upload_a1B2c3'' ''abcde'')]"
proof -
  have h: "WebDAVFileHandle_ctor ''https://h/d/f''
     \<lparr>OpenForReading = False, OpenForWriting = True, OpenForAppending = False\<rparr> 0
     \<lparr>username = ''u'', password = ''p''\<rparr> = Inr (example_handle 0)"
    by (simp add: WebDAVFileHandle_ctor_def example_handle_def)
  have u: "ParseUrl ''https://h/d/f''
     = Inr \<lparr> http_proto = ''https'', host = ''h'', url_path = ''/d/f'' \<rparr>"
    by (simp add: ParseUrl_def StartsWith_def split_host_path_def str_find_def)
  have e: "mkstemp_name test_env = Some ''/tmp/webdav_upload_a1B2c3''" "\<not> fopen_fails test_env"
    by (simp_all add: test_env_def)
  have t: "streaming_threshold (example_handle 0) = 0"
    by (simp add: streaming_threshold_def example_handle_def)
  have g: "GetHTTPUrl \<lparr> http_proto = ''https'', host = ''h'', url_path = ''/d/f'' \<rparr> = ''https://h/d/f''"
    by (simp add: GetHTTPUrl_def)
  from write_commit_uploads_concatenation[OF h u e, of Map.empty "[]" "[''abc'', ''de'']"
      accepting_server "example_handle 50" Map.empty "[]" "''abc''"]
  obtain wfh' files' where
    a: "write_sequence test_env (example_handle 0, Map.empty, []) 0 [''abc'', ''de'']
        = (Inr (), wfh', files', [])"
    and b: "using_temp_file wfh'"
    and c: "committed_upload wfh' files' = FromFile ''/tmp/webdav_upload_a1B2c3'' ''abcde''"
    and d: "snd (snd (snd (FlushBuffer test_env accepting_server (wfh', files', []))))
        = [PUT ''https://h/d/f'' (committed_upload wfh' files')]"
    by (auto simp: t g accepting_server_def)
  from a b c d show ?thesis by auto
qed

text \<open>
  C1 (the code at an input where it departs from the claim). Two writes at the running
  totals, \<open>ab\<close> at 0 and \<open>c\<close> at 2, on a handle whose threshold is 0, so that it spills; then
  the final commit by \<open>Close\<close>, against a server that answers a PUT with 404 until the parent
  collection exists. The first PUT streams \<open>abc\<close> from the staging file; the PUT after the
  creation of the collection is \<open>PutRequest\<close> on \<open>write_buffer\<close>, which is empty since the
  spill; the server accepts it and \<open>Close\<close> reports success, so the committed content is
  empty and not the concatenation. With the same writes in memory (threshold 50 MB) both
  PUTs carry \<open>abc\<close>, and on the spilled handle a first PUT that is accepted carries \<open>abc\<close>.
\<close>

theorem write_sequence_commit_after_spill:
  "Close test_env parent_missing_server
       (snd (write_sequence test_env (example_handle 0, Map.empty, []) 0 [''ab'', ''c'']))
   = (Inr (),
      example_handle 0 \<lparr> file_offset := 3 \<rparr>, Map.empty,
      [PUT ''https://h/d/f'' (FromFile ''/tmp/webdav_upload_a1B2c3'' ''abc''),
       MKCOL ''https://h/d/'',
       PUT ''https://h/d/f'' (FromMemory [])])
   \<and> snd (snd (snd (Close test_env parent_missing_server
       (snd (write_sequence test_env (example_handle 50, Map.empty, []) 0 [''ab'', ''c''])))))
   = [PUT ''https://h/d/f'' (FromMemory ''abc''),
       MKCOL ''https://h/d/'',
       PUT ''https://h/d/f'' (FromMemory ''abc'')]
   \<and> snd (snd (snd (Close test_env accepting_server
       (snd (write_sequence test_env (example_handle 0, Map.empty, []) 0 [''ab'', ''c''])))))
   = [PUT ''https://h/d/f'' (FromFile ''/tmp/webdav_upload_a1B2c3'' ''abc'')]"
  by (simp add: run_defs)

text \<open>
  C2 (the code at an input where it departs from the claim). In memory mode \<open>Write\<close>
  compares the offset with the size of the memory buffer, which a successful Sync has
  emptied. After \<open>Write(''abc'', 0)\<close> and a Sync, three bytes have been accepted; a write
  at offset 3 is rejected and a write at offset 0 is accepted. After the same calls on a
  handle that has spilled, the write at offset 3 is accepted.
\<close>

theorem Write_after_sync_in_memory:
  "fst (Write test_env (example_handle 50, Map.empty, []) ''abc'' 0) = Inr ()
   \<and> file_offset (fst (after_write_and_sync 50)) = 3
   \<and> \<not> using_temp_file (fst (after_write_and_sync 50))
   \<and> fst (Write test_env (after_write_and_sync 50) ''d'' 3)
       = Inl (IOException
           ''WebDAV does not support non-sequential writes. Expected location 0 but got 3'')
   \<and> fst (Write test_env (after_write_and_sync 50) ''d'' 0) = Inr ()
   \<and> file_offset (fst (after_write_and_sync 0)) = 3
   \<and> using_temp_file (fst (after_write_and_sync 0))
   \<and> fst (Write test_env (after_write_and_sync 0) ''d'' 3) = Inr ()"
  by (simp add: run_defs)

text \<open>
  What a Sync uploads, in terms of what the handle holds. On a handle that has spilled,
  every Sync uploads the whole staging file, that is everything the handle holds, and keeps the file, so that a later
  write appends to it and a later Sync uploads everything again. On a handle in memory a
  Sync uploads the memory buffer and, when the upload succeeds, empties it; a Sync of a
  clean handle in memory sends nothing.
\<close>

theorem FileSync_uploads_held_content:
  assumes nf: "\<not> fopen_fails env" and inv: "handle_invariant wfh files"
    and url: "ParseUrl (path wfh) = Inr u"
  shows
   "(using_temp_file wfh \<longrightarrow>
       (\<exists>r more. FileSync env srv (wfh, files, trace)
          = (r, (if r = Inr () then wfh \<lparr> write_buffer := [], buffer_dirty := False \<rparr> else wfh),
             files,
             trace @ PUT (GetHTTPUrl u)
                       (FromFile (temp_file_path wfh) (buffered_content wfh files)) # more))
       \<and> buffered_content (wfh \<lparr> write_buffer := [], buffer_dirty := False \<rparr>) files
           = buffered_content wfh files)
    \<and> (\<not> using_temp_file wfh \<and> buffer_dirty wfh \<longrightarrow>
       (\<exists>r more. FileSync env srv (wfh, files, trace)
          = (r, (if r = Inr () then wfh \<lparr> write_buffer := [], buffer_dirty := False \<rparr> else wfh),
             files,
             trace @ PUT (GetHTTPUrl u) (FromMemory (write_buffer wfh)) # more))
       \<and> buffered_content (wfh \<lparr> write_buffer := [], buffer_dirty := False \<rparr>) files = [])
    \<and> (\<not> using_temp_file wfh \<and> \<not> buffer_dirty wfh \<longrightarrow>
       FileSync env srv (wfh, files, trace) = (Inr (), wfh, files, trace))
    \<and> (using_temp_file wfh \<longrightarrow>
       (\<exists>wfh1 files1. Write env (wfh, files, trace) buffer (file_offset wfh)
           = (Inr (), wfh1, files1, trace)
         \<and> using_temp_file wfh1 \<and> handle_invariant wfh1 files1
         \<and> temp_file_path wfh1 = temp_file_path wfh
         \<and> buffered_content wfh1 files1 = buffered_content wfh files @ buffer))"
proof -
  have spilled: "using_temp_file wfh \<longrightarrow>
       (\<exists>r more. FileSync env srv (wfh, files, trace)
          = (r, (if r = Inr () then wfh \<lparr> write_buffer := [], buffer_dirty := False \<rparr> else wfh),
             files,
             trace @ PUT (GetHTTPUrl u)
                       (FromFile (temp_file_path wfh) (buffered_content wfh files)) # more))
       \<and> buffered_content (wfh \<lparr> write_buffer := [], buffer_dirty := False \<rparr>) files
           = buffered_content wfh files"
  proof
    assume sp: "using_temp_file wfh"
    then have d: "buffer_dirty wfh \<or> using_temp_file wfh" by simp
    from sp inv have b: "write_buffer wfh = []" by (simp add: handle_invariant_def)
    with sp have cu: "committed_upload wfh files
        = FromFile (temp_file_path wfh) (buffered_content wfh files)"
      by (simp add: committed_upload_def buffered_content_def)
    from FlushBuffer_commit[OF nf inv url d, of srv trace] cu sp b
    show "(\<exists>r more. FileSync env srv (wfh, files, trace)
          = (r, (if r = Inr () then wfh \<lparr> write_buffer := [], buffer_dirty := False \<rparr> else wfh),
             files,
             trace @ PUT (GetHTTPUrl u)
                       (FromFile (temp_file_path wfh) (buffered_content wfh files)) # more))
       \<and> buffered_content (wfh \<lparr> write_buffer := [], buffer_dirty := False \<rparr>) files
           = buffered_content wfh files"
      by (simp add: FileSync_def buffered_content_def)
  qed
  have memory: "\<not> using_temp_file wfh \<and> buffer_dirty wfh \<longrightarrow>
       (\<exists>r more. FileSync env srv (wfh, files, trace)
          = (r, (if r = Inr () then wfh \<lparr> write_buffer := [], buffer_dirty := False \<rparr> else wfh),
             files,
             trace @ PUT (GetHTTPUrl u) (FromMemory (write_buffer wfh)) # more))
       \<and> buffered_content (wfh \<lparr> write_buffer := [], buffer_dirty := False \<rparr>) files = []"
  proof
    assume a: "\<not> using_temp_file wfh \<and> buffer_dirty wfh"
    then have d: "buffer_dirty wfh \<or> using_temp_file wfh" by simp
    from a have cu: "committed_upload wfh files = FromMemory (write_buffer wfh)"
      by (simp add: committed_upload_def)
    from FlushBuffer_commit[OF nf inv url d, of srv trace] cu a
    show "(\<exists>r more. FileSync env srv (wfh, files, trace)
          = (r, (if r = Inr () then wfh \<lparr> write_buffer := [], buffer_dirty := False \<rparr> else wfh),
             files,
             trace @ PUT (GetHTTPUrl u) (FromMemory (write_buffer wfh)) # more))
       \<and> buffered_content (wfh \<lparr> write_buffer := [], buffer_dirty := False \<rparr>) files = []"
      by (simp add: FileSync_def buffered_content_def)
  qed
  have clean: "\<not> using_temp_file wfh \<and> \<not> buffer_dirty wfh \<longrightarrow>
       FileSync env srv (wfh, files, trace) = (Inr (), wfh, files, trace)"
    by (simp add: FileSync_def FlushBuffer_clean)
  have append: "using_temp_file wfh \<longrightarrow>
       (\<exists>wfh1 files1. Write env (wfh, files, trace) buffer (file_offset wfh)
           = (Inr (), wfh1, files1, trace)
         \<and> using_temp_file wfh1 \<and> handle_invariant wfh1 files1
         \<and> temp_file_path wfh1 = temp_file_path wfh
         \<and> buffered_content wfh1 files1 = buffered_content wfh files @ buffer)"
    using nf inv
    by (auto simp: Write_def expected_location_def handle_invariant_def buffered_content_def
        file_contents_def)
  from spilled memory clean append show ?thesis by blast
qed

theorem FileSync_uploads_held_content_witness:
  "(\<exists>r h more. FileSync test_env accepting_server (after_write_and_sync 0)
      = (r, h, [''/tmp/webdav_upload_a1B2c3'' \<mapsto> ''abc''],
         [PUT ''https://h/d/f'' (FromFile ''/tmp/webdav_upload_a1B2c3'' ''abc'')]
         @ PUT ''https://h/d/f'' (FromFile ''/tmp/webdav_upload_a1B2c3'' ''abc'') # more))
   \<and> (\<exists>wfh1 files1. Write test_env (after_write_and_sync 0) ''d'' 3
           = (Inr (), wfh1, files1,
              [PUT ''https://h/d/f'' (FromFile ''/tmp/webdav_upload_a1B2c3'' ''abc'')])
         \<and> buffered_content wfh1 files1 = ''abcd'')"
proof -
  let ?h = "example_handle 0 \<lparr> file_offset := 3, temp_file_path := ''/tmp/webdav_upload_a1B2c3'',
      using_temp_file := True \<rparr>"
  let ?files = "[''/tmp/webdav_upload_a1B2c3'' \<mapsto> ''abc'']"
  let ?trace = "[PUT ''https://h/d/f'' (FromFile ''/tmp/webdav_upload_a1B2c3'' ''abc'')]"
  let ?u = "\<lparr> http_proto = ''https'', host = ''h'', url_path = ''/d/f'' \<rparr>"
  have st: "after_write_and_sync 0 = (?h, ?files, ?trace)"
    by (simp add: run_defs)
  have nf: "\<not> fopen_fails test_env" by (simp add: test_env_def)
  have inv: "handle_invariant ?h ?files"
    by (simp add: handle_invariant_def example_handle_def)
  have url: "ParseUrl (path ?h) = Inr ?u"
    by (simp add: example_handle_def ParseUrl_def StartsWith_def split_host_path_def str_find_def)
  have sp: "using_temp_file ?h" by simp
  have bc: "buffered_content ?h ?files = ''abc''"
    by (simp add: buffered_content_def file_contents_def example_handle_def)
  have g: "GetHTTPUrl ?u = ''https://h/d/f''" by (simp add: GetHTTPUrl_def)
  have fo: "file_offset ?h = 3" by simp
  have tp: "temp_file_path ?h = ''/tmp/webdav_upload_a1B2c3''" by simp
  note inst = FileSync_uploads_held_content[OF nf inv url, of accepting_server ?trace "''d''"]
  from inst sp obtain r more where
    "FileSync test_env accepting_server (?h, ?files, ?trace)
          = (r, (if r = Inr () then ?h \<lparr> write_buffer := [], buffer_dirty := False \<rparr> else ?h),
             ?files,
             ?trace @ PUT (GetHTTPUrl ?u) (FromFile (temp_file_path ?h) (buffered_content ?h ?files)) # more)"
    by blast
  then have a: "\<exists>r h more. FileSync test_env accepting_server (after_write_and_sync 0)
      = (r, h, ?files, ?trace @ PUT ''https://h/d/f'' (FromFile ''/tmp/webdav_upload_a1B2c3'' ''abc'') # more)"
    unfolding st bc g tp by blast
  from inst sp obtain wfh1 files1 where
    "Write test_env (?h, ?files, ?trace) ''d'' (file_offset ?h) = (Inr (), wfh1, files1, ?trace)"
    "buffered_content wfh1 files1 = buffered_content ?h ?files @ ''d''"
    by blast
  then have b: "\<exists>wfh1 files1. Write test_env (after_write_and_sync 0) ''d'' 3
           = (Inr (), wfh1, files1, ?trace) \<and> buffered_content wfh1 files1 = ''abcd''"
    unfolding st bc fo by auto
  from a b show ?thesis by blast
qed

text \<open>
  C3 (the code at an input where it departs from the claim). In memory mode, after
  \<open>Write(''abc'', 0)\<close> and a successful Sync the memory buffer is empty; the write that the
  handle then accepts is at offset 0, and the Sync after it uploads the byte of that write
  and nothing else, so that the remote file is replaced by \<open>d\<close>. On a handle that has
  spilled, the same calls (the second write at offset 3) end with a Sync that uploads
  \<open>abcd\<close>, everything accepted since the handle was opened.
\<close>

theorem FileSync_after_sync_in_memory:
  "snd (snd (snd (FileSync test_env accepting_server
       (snd (Write test_env (after_write_and_sync 50) ''d'' 0)))))
   = [PUT ''https://h/d/f'' (FromMemory ''abc''), PUT ''https://h/d/f'' (FromMemory ''d'')]
   \<and> fst (FileSync test_env accepting_server
       (snd (Write test_env (after_write_and_sync 50) ''d'' 0))) = Inr ()
   \<and> snd (snd (snd (FileSync test_env accepting_server
       (snd (Write test_env (after_write_and_sync 0) ''d'' 3)))))
   = [PUT ''https://h/d/f'' (FromFile ''/tmp/webdav_upload_a1B2c3'' ''abc''),
      PUT ''https://h/d/f'' (FromFile ''/tmp/webdav_upload_a1B2c3'' ''abcd'')]"
  by (simp add: run_defs)

text \<open>
  C4 (the code at an input where it departs from the claim). The PUT that follows the
  creation of the parent directories is \<open>PutRequest\<close> on \<open>write_buffer\<close> in both modes. On
  a handle that has spilled the memory buffer is empty, so the retried PUT has an empty
  body, the server accepts it, and \<open>Close\<close> reports success. In memory mode the retried PUT
  carries the same bytes as the first one.
\<close>

theorem FlushBuffer_retry_after_spill:
  "Close test_env parent_missing_server
       (snd (Write test_env (example_handle 0, Map.empty, []) ''abc'' 0))
   = (Inr (),
      example_handle 0 \<lparr> file_offset := 3 \<rparr>, Map.empty,
      [PUT ''https://h/d/f'' (FromFile ''/tmp/webdav_upload_a1B2c3'' ''abc''),
       MKCOL ''https://h/d/'',
       PUT ''https://h/d/f'' (FromMemory [])])
   \<and> snd (snd (snd (Close test_env parent_missing_server
       (snd (Write test_env (example_handle 50, Map.empty, []) ''abc'' 0)))))
   = [PUT ''https://h/d/f'' (FromMemory ''abc''),
       MKCOL ''https://h/d/'',
       PUT ''https://h/d/f'' (FromMemory ''abc'')]"
  by (simp add: run_defs)

section \<open>Properties of the multi-status parser\<close>

lemma find_at_here: "find_at needle (needle @ rest) i = Some i"
proof (cases "needle @ rest")
  case Nil
  then show ?thesis by simp
next
  case (Cons a list)
  have "take (length needle) (needle @ rest) = needle" by simp
  with Cons have "take (length needle) (a # list) = needle" by simp
  with Cons show ?thesis by simp
qed

lemma take_needle_past:
  "take (length needle) (c # sep @ needle @ rest) = take (length needle) (c # sep @ needle)"
proof -
  have "take (length needle) ((c # sep @ needle) @ rest) = take (length needle) (c # sep @ needle)"
    by (subst take_append) simp
  then show ?thesis by simp
qed

lemma tag_starts_in_local:
  "tag_starts_in needle sep (needle @ rest) = tag_starts_in needle sep needle"
proof (induction sep)
  case Nil
  show ?case by simp
next
  case (Cons c sep)
  show ?case
    unfolding tag_starts_in.simps Cons.IH take_needle_past ..
qed

lemma find_at_after_separator:
  "\<not> tag_starts_in needle sep needle \<Longrightarrow>
     find_at needle (sep @ needle @ rest) i = Some (i + length sep)"
proof (induction sep arbitrary: i)
  case Nil
  then show ?case by (simp add: find_at_here)
next
  case (Cons c sep)
  from Cons.prems have a: "take (length needle) (c # sep @ needle) \<noteq> needle"
    and b: "\<not> tag_starts_in needle sep needle" by simp_all
  from a have "take (length needle) (c # sep @ needle @ rest) \<noteq> needle"
    unfolding take_needle_past .
  with Cons.IH[OF b, of "Suc i"] show ?case by simp
qed

lemma find_at_None_shift: "find_at needle s i = None \<Longrightarrow> find_at needle s j = None"
  by (induction s arbitrary: i j) (auto split: if_splits)

lemma href_at_reference:
  assumes "well_separated (sep, v)"
  shows "href_at (pre @ reference (sep, v) @ rest) (length pre)
     = Some (length (pre @ reference (sep, v)), v)"
proof -
  let ?xml = "pre @ reference (sep, v) @ rest"
  from assms have s1: "\<not> tag_starts_in ''<D:href>'' sep ''<D:href>''"
    and s2: "\<not> tag_starts_in ''</D:href>'' v ''</D:href>''" by (simp_all add: well_separated_def)
  have d: "drop (length pre) ?xml = sep @ ''<D:href>'' @ (v @ ''</D:href>'' @ rest)"
    by (simp add: reference_def)
  have o: "str_find ?xml ''<D:href>'' (length pre) = Some (length pre + length sep)"
    unfolding str_find_def d using find_at_after_separator[OF s1] by simp
  have d2: "drop (length pre + length sep) ?xml = ''<D:href>'' @ v @ ''</D:href>'' @ rest"
    by (simp add: reference_def)
  have d3: "drop (length pre + length sep + length ''<D:href>'') ?xml = v @ ''</D:href>'' @ rest"
    by (simp add: reference_def)
  have c: "str_find ?xml ''</D:href>'' (length pre + length sep + length ''<D:href>'')
     = Some (length pre + length sep + length ''<D:href>'' + length v)"
    unfolding str_find_def d3 using find_at_after_separator[OF s2] by (simp add: reference_def)
  have t: "take 8 (drop (length pre + length sep) ?xml) = ''<D:href>''"
    unfolding d2 by simp
  have nh: "next_href ?xml (length pre) = Some (length pre + length sep)"
    using o by (simp add: next_href_def find_from_def)
  have hr: "take (length v) (drop (length pre + length sep + length ''<D:href>'') ?xml) = v"
    unfolding d3 by simp
  have "href_at ?xml (length pre)
     = Some (length pre + length sep + length ''<D:href>'' + length v + length ''</D:href>'',
             take (length pre + length sep + length ''<D:href>'' + length v
                    - (length pre + length sep + length ''<D:href>''))
                  (drop (length pre + length sep + length ''<D:href>'') ?xml))"
    unfolding href_at_def nh option.case Let_def t
    by (simp only: simp_thms if_True c option.case)
  also have "\<dots> = Some (length (pre @ reference (sep, v)), v)"
    using hr by (simp add: reference_def)
  finally show ?thesis .
qed

lemma href_at_tail:
  assumes "str_find tail ''<D:href>'' 0 = None"
  shows "href_at (pre @ tail) (length pre) = None"
proof -
  from assms have "find_at ''<D:href>'' tail 0 = None" by (simp add: str_find_def)
  then have "find_at ''<D:href>'' tail (length pre) = None" by (rule find_at_None_shift)
  then show ?thesis by (simp add: href_at_def next_href_def find_from_def str_find_def)
qed

lemma collect_hrefs_references:
  "\<forall>item \<in> set items. well_separated item \<Longrightarrow> str_find tail ''<D:href>'' 0 = None \<Longrightarrow>
     collect_hrefs keep (pre @ concat (map reference items) @ tail) (length pre)
       = (case decode_all (map snd items) of Inl e \<Rightarrow> Inl e | Inr ds \<Rightarrow> Inr (filter keep ds))"
proof (induction items arbitrary: pre)
  case Nil
  then show ?case using href_at_tail[of tail pre]
    by (subst collect_hrefs.simps) simp
next
  case (Cons item items)
  obtain sep v where item: "item = (sep, v)" by (cases item)
  from Cons.prems have ws: "well_separated (sep, v)" and rest: "\<forall>item \<in> set items. well_separated item"
    by (simp_all add: item)
  let ?rest = "concat (map reference items) @ tail"
  have h: "href_at (pre @ reference (sep, v) @ ?rest) (length pre)
     = Some (length (pre @ reference (sep, v)), v)"
    by (rule href_at_reference[OF ws])
  have IH: "collect_hrefs keep ((pre @ reference (sep, v)) @ ?rest) (length (pre @ reference (sep, v)))
       = (case decode_all (map snd items) of Inl e \<Rightarrow> Inl e | Inr ds \<Rightarrow> Inr (filter keep ds))"
    by (rule Cons.IH[OF rest Cons.prems(2)])
  have x: "pre @ concat (map reference (item # items)) @ tail = pre @ reference (sep, v) @ ?rest"
    by (simp add: item)
  show ?case
    unfolding x
    apply (subst collect_hrefs.simps)
    using h IH
    by (auto simp: item split: sum.splits)
qed

lemma url_decode_escape:
  "hex_digit a = Some x \<Longrightarrow> hex_digit b = Some y \<Longrightarrow>
     url_decode (CHR ''%'' # a # b # rest)
       = (case url_decode rest of Inl e \<Rightarrow> Inl e | Inr d \<Rightarrow> Inr (char_of_int (int (16 * x + y)) # d))"
  by (simp add: stoi_hex_def del: of_nat_add of_nat_mult)

lemma url_decode_plain:
  "c \<noteq> CHR ''%'' \<Longrightarrow>
     url_decode (c # rest) = (case url_decode rest of Inl e \<Rightarrow> Inl e | Inr d \<Rightarrow> Inr (c # d))"
  by (cases rest rule: url_decode.cases) auto

lemma url_decode_well_formed:
  "well_formed_escapes v \<Longrightarrow> url_decode v = Inr (percent_decode_spec v)"
proof (induction v rule: url_decode.induct)
  case 1
  then show ?case by simp
next
  case (2 c a b rest)
  show ?case
  proof (cases "c = CHR ''%''")
    case True
    with 2 obtain x y where xy: "hex_digit a = Some x" "hex_digit b = Some y"
      and wf: "well_formed_escapes rest" by auto
    from 2(1)[OF True] xy wf have "url_decode rest = Inr (percent_decode_spec rest)"
      by (simp add: stoi_hex_def)
    with True xy show ?thesis by (simp add: stoi_hex_def del: of_nat_add of_nat_mult)
  next
    case False
    with 2 show ?thesis by (auto split: option.splits bool.splits)
  qed
qed simp_all

lemma decode_all_well_formed:
  "\<forall>v \<in> set vs. well_formed_escapes v \<Longrightarrow> decode_all vs = Inr (map percent_decode_spec vs)"
  by (induction vs) (simp_all add: url_decode_well_formed)

text \<open>
  C8 (as the code has it). Take a body made of namespace-prefixed reference elements
  \<open><D:href>v</D:href>\<close>, each preceded by text in which no opening tag starts and with a
  value in which no closing tag starts and every percent sign is followed by two
  hexadecimal digits, followed by a tail without opening tag; the body holds no reference
  tag without namespace prefix. The parser captures the values in document order,
  percent-decodes each one and returns exactly those whose decoded value does not end with
  a slash: a value ending with a slash is a collection and is left out of the result.
\<close>

theorem ParsePropfindResponse_prefixed_references:
  assumes "\<forall>item \<in> set items. well_separated item \<and> well_formed_escapes (snd item)"
    and "str_find tail ''<D:href>'' 0 = None"
    and "str_find (concat (map reference items) @ tail) ''<href>'' 0 = None"
  shows "ParsePropfindResponse (concat (map reference items) @ tail) base_path
           = Inr (filter (\<lambda>decoded_href. \<not> EndsWith decoded_href ''/'')
                    (map (\<lambda>item. percent_decode_spec (snd item)) items))"
proof -
  have ws: "\<forall>item \<in> set items. well_separated item" using assms(1) by blast
  have "\<forall>v \<in> set (map snd items). well_formed_escapes v" using assms(1) by simp
  then have d: "decode_all (map snd items) = Inr (map percent_decode_spec (map snd items))"
    by (rule decode_all_well_formed)
  have "collect_hrefs (\<lambda>decoded_href. \<not> EndsWith decoded_href ''/'')
          ([] @ concat (map reference items) @ tail) (length ([] :: string))
        = (case decode_all (map snd items) of
             Inl e \<Rightarrow> Inl e
           | Inr ds \<Rightarrow> Inr (filter (\<lambda>decoded_href. \<not> EndsWith decoded_href ''/'') ds))"
    using ws assms(2) by (rule collect_hrefs_references)
  then show ?thesis
    by (simp add: ParsePropfindResponse_def d comp_def)
qed

theorem ParsePropfindResponse_prefixed_references_witness:
  "list_all (\<lambda>item. well_separated item \<and> well_formed_escapes (snd item))
      [(''<D:multistatus><D:response>'', ''/dav/my%20dir/''),
       (''</D:response><D:response>'', ''/dav/my%20dir/a%20b.csv'')]
   \<and> str_find ''</D:response></D:multistatus>'' ''<D:href>'' 0 = None
   \<and> str_find
         (concat (map reference [(''<D:multistatus><D:response>'', ''/dav/my%20dir/''),
                                 (''</D:response><D:response>'', ''/dav/my%20dir/a%20b.csv'')])
            @ ''</D:response></D:multistatus>'') ''<href>'' 0 = None
   \<and> ParsePropfindResponse
         (concat (map reference [(''<D:multistatus><D:response>'', ''/dav/my%20dir/''),
                                 (''</D:response><D:response>'', ''/dav/my%20dir/a%20b.csv'')])
            @ ''</D:response></D:multistatus>'') ''/dav/''
       = Inr [''/dav/my dir/a b.csv'']"
  using ParsePropfindResponse_prefixed_references
          [where items = "[(''<D:multistatus><D:response>'', ''/dav/my%20dir/''),
                           (''</D:response><D:response>'', ''/dav/my%20dir/a%20b.csv'')]"
             and tail = "''</D:response></D:multistatus>''" and base_path = "''/dav/''"]
  by (simp add: well_separated_def reference_def str_find_def EndsWith_def hex_digit_def
        char_of_int_def)

text \<open>
  The body of the claim's example: two reference tags, one ending with a slash and one not.
  The result has exactly one entry, the non-collection one; the collection is not an entry.
\<close>

theorem ParsePropfindResponse_two_tags_counterexample:
  "ParsePropfindResponse
     ''<D:multistatus><D:response><D:href>/dav/my%20dir/</D:href></D:response><D:response><D:href>/dav/my%20dir/a%20b.csv</D:href></D:response></D:multistatus>''
     ''/dav/''
   = Inr [''/dav/my dir/a b.csv'']"
  by (simp add: parse_defs)

text \<open>
  A body whose reference tag has no namespace prefix: the second search of the loop
  condition starts at the position left by the failed first one, and nothing is found.
\<close>

lemma ParsePropfindResponse_unprefixed_tag:
  "ParsePropfindResponse ''<D:multistatus><response><href>/dav/a.csv</href></response></D:multistatus>''
     ''/dav/'' = Inr []"
  by (simp add: parse_defs)


section \<open>Properties of glob resolution\<close>





















end
